theory Spec2Isabelle
  imports Complex_Main "HOL-Library.Word" "HOL-Library.Log_Nat" "HOL-Library.Monad_Syntax"
begin

section \<open>Floating-point arithmetic of the filters\<close>

text \<open>
  The filters of \<^verbatim>\<open>filters2.c++\<close> compute in \<^verbatim>\<open>float\<close> (blur) and \<^verbatim>\<open>double\<close>
  (grayscale, sepia, edges). A finite floating-point value is modelled by the rational
  number it denotes, and every arithmetic operation by the exact operation followed by
  IEEE 754 rounding to nearest, ties to even, at the precision of the format
  (24 significant bits for \<^verbatim>\<open>float\<close>, 53 for \<^verbatim>\<open>double\<close>).
  The exponent range is not modelled: every value these filters compute is zero or
  lies between \<open>1/16\<close> and \<open>2\<^sup>2\<^sup>2\<close>, far inside the normal range of both formats.
  Expressions are evaluated operation by operation in the declared type (no fused
  multiply-add, no extended precision).
\<close>

text \<open>\<open>expo q\<close> is the binary exponent of \<open>q \<noteq> 0\<close>: \<open>2 powi expo q \<le> \<bar>q\<bar> < 2 powi (expo q + 1)\<close>.\<close>

definition expo :: "rat \<Rightarrow> int" where
  "expo q = (case quotient_of \<bar>q\<bar> of (a, b) \<Rightarrow>
     let e = bitlen a - bitlen b in if 2 powi e \<le> \<bar>q\<bar> then e else e - 1)"

text \<open>Rounding to the nearest integer, ties to the even one.\<close>

definition round_even :: "rat \<Rightarrow> int" where
  "round_even m = (let f = \<lfloor>m\<rfloor>; r = m - of_int f in
     if r < 1/2 then f else if 1/2 < r then f + 1 else if even f then f else f + 1)"

text \<open>\<open>rn p q\<close>: the floating-point number with \<open>p\<close> significant bits nearest to \<open>q\<close>.\<close>

definition rn :: "nat \<Rightarrow> rat \<Rightarrow> rat" where
  "rn p q = (if q = 0 then 0 else
     let u = 2 powi (expo q - int p + 1) in of_int (round_even (q / u)) * u)"

text \<open>
  \<^verbatim>\<open>std::round\<close> rounds to the nearest integer, halfway cases away from zero. Its result
  is an integer-valued floating-point number; \<open>cround\<close> gives that integer, which is also
  what \<^verbatim>\<open>static_cast<int>(std::round(x))\<close> yields while it fits an \<^verbatim>\<open>int\<close>.
\<close>

definition cround :: "rat \<Rightarrow> int" where
  "cround q = (if 0 \<le> q then \<lfloor>q + 1/2\<rfloor> else \<lceil>q - 1/2\<rceil>)"

text \<open>Integer square root, two bits of the argument per step.\<close>

function isqrt :: "int \<Rightarrow> int" where
  "isqrt n = (if n \<le> 0 then 0 else
     let r = 2 * isqrt (n div 4) in if (r + 1) * (r + 1) \<le> n then r + 1 else r)"
  by pat_completeness auto
termination
  by (relation "measure nat") auto

declare isqrt.simps [simp del]

text \<open>
  \<^verbatim>\<open>std::sqrt\<close> is correctly rounded: \<open>fsqrt p x\<close> is the \<open>p\<close>-bit floating-point number
  nearest to the square root of \<open>x\<close>. With \<open>u\<close> the unit in the last place of the result
  and \<open>t = x / u\<^sup>2\<close>, the significand is \<open>\<lfloor>sqrt t\<rfloor>\<close> or its successor, decided by
  comparing \<open>t\<close> with \<open>(m + 1/2)\<^sup>2\<close>. The filters call it on sums of squares only, so the
  argument is never negative (the model returns 0 there, where the machine returns NaN).
\<close>

definition fsqrt :: "nat \<Rightarrow> rat \<Rightarrow> rat" where
  "fsqrt p x = (if x \<le> 0 then 0 else
     let e = expo x div 2;
         u = 2 powi (e - int p + 1);
         t = x / (u * u);
         m = isqrt \<lfloor>t\<rfloor>;
         h = of_int (m * m + m) + 1/4
     in of_int (if t < h then m else if h < t then m + 1 else if even m then m else m + 1) * u)"

text \<open>The operations of the two formats.\<close>

definition int_to_float :: "int \<Rightarrow> rat" where
  "int_to_float n = rn 24 (of_int n)"

definition fadd :: "rat \<Rightarrow> rat \<Rightarrow> rat" where
  "fadd x y = rn 24 (x + y)"

definition fdiv :: "rat \<Rightarrow> rat \<Rightarrow> rat" where
  "fdiv x y = rn 24 (x / y)"

definition int_to_double :: "int \<Rightarrow> rat" where
  "int_to_double n = rn 53 (of_int n)"

text \<open>A decimal literal such as \<^verbatim>\<open>0.393\<close> denotes the \<^verbatim>\<open>double\<close> nearest to it.\<close>

definition dlit :: "rat \<Rightarrow> rat" where
  "dlit c = rn 53 c"

definition dadd :: "rat \<Rightarrow> rat \<Rightarrow> rat" where
  "dadd x y = rn 53 (x + y)"

definition dmul :: "rat \<Rightarrow> rat \<Rightarrow> rat" where
  "dmul x y = rn 53 (x * y)"

definition ddiv :: "rat \<Rightarrow> rat \<Rightarrow> rat" where
  "ddiv x y = rn 53 (x / y)"

text \<open>\<^verbatim>\<open>std::pow(g, 2)\<close> on an \<^verbatim>\<open>int\<close> argument: the square, computed in \<^verbatim>\<open>double\<close>.\<close>

definition dpow2 :: "int \<Rightarrow> rat" where
  "dpow2 g = rn 53 (int_to_double g * int_to_double g)"

definition dsqrt :: "rat \<Rightarrow> rat" where
  "dsqrt x = fsqrt 53 x"

section \<open>Pixels and images\<close>

type_synonym BYTE = "8 word"

record RGBTRIPLE =
  rgbtBlue :: BYTE
  rgbtGreen :: BYTE
  rgbtRed :: BYTE

text \<open>\<^verbatim>\<open>std::vector<std::vector<RGBTRIPLE>>\<close>: a list of rows.\<close>

type_synonym grid = "RGBTRIPLE list list"

text \<open>The pixel with the given red, green and blue values.\<close>

definition rgb :: "nat \<Rightarrow> nat \<Rightarrow> nat \<Rightarrow> RGBTRIPLE" where
  "rgb r g b = \<lparr>rgbtBlue = of_nat b, rgbtGreen = of_nat g, rgbtRed = of_nat r\<rparr>"

text \<open>
  The structural invariant that \<^verbatim>\<open>main\<close> establishes before it calls a filter: the image
  has \<open>height\<close> rows of \<open>width\<close> pixels each. The dimensions are \<^verbatim>\<open>int\<close> in the source;
  \<^verbatim>\<open>main\<close> passes the sizes the vectors were built with, so they are natural numbers here.
  Indexing a vector out of range is undefined in C++; under this invariant every index
  the filters use is in range.
\<close>

definition valid_grid :: "nat \<Rightarrow> nat \<Rightarrow> grid \<Rightarrow> bool" where
  "valid_grid height width img \<longleftrightarrow> length img = height \<and> (\<forall>row \<in> set img. length row = width)"

text \<open>All pixels of the image equal \<open>c\<close>.\<close>

definition uniform :: "RGBTRIPLE \<Rightarrow> grid \<Rightarrow> bool" where
  "uniform c img \<longleftrightarrow> (\<forall>row \<in> set img. \<forall>p \<in> set row. p = c)"

text \<open>The assignment \<^verbatim>\<open>image[i][j] = p\<close>.\<close>

definition put :: "grid \<Rightarrow> nat \<Rightarrow> nat \<Rightarrow> RGBTRIPLE \<Rightarrow> grid" where
  "put img i j p = img[i := (img ! i)[j := p]]"

text \<open>
  The loop nest \<^verbatim>\<open>for (i = 0; i < height; ++i) for (j = 0; j < width; ++j) body\<close>,
  threading the state the body changes.
\<close>

definition for2 :: "nat \<Rightarrow> nat \<Rightarrow> (nat \<Rightarrow> nat \<Rightarrow> 's \<Rightarrow> 's) \<Rightarrow> 's \<Rightarrow> 's" where
  "for2 height width body s = fold (\<lambda>i. fold (\<lambda>j. body i j) [0..<width]) [0..<height] s"

text \<open>The same loop nest for a body that may have undefined behaviour (\<open>None\<close>).\<close>

definition for2_opt :: "nat \<Rightarrow> nat \<Rightarrow> (nat \<Rightarrow> nat \<Rightarrow> 's \<Rightarrow> 's option) \<Rightarrow> 's \<Rightarrow> 's option" where
  "for2_opt height width body s =
     fold (\<lambda>i. fold (\<lambda>j so. Option.bind so (body i j)) [0..<width]) [0..<height] (Some s)"

text \<open>The helper \<^verbatim>\<open>clamp\<close> at the end of the file.\<close>

definition clamp :: "int \<Rightarrow> int \<Rightarrow> int \<Rightarrow> BYTE" where
  "clamp v mn mx = (if v < mn then word_of_int mn else if v > mx then word_of_int mx else word_of_int v)"

text \<open>
  \<^verbatim>\<open>static_cast<BYTE>(f)\<close> for an integer-valued \<^verbatim>\<open>float\<close> \<open>f\<close>: undefined unless the value
  fits the destination type.
\<close>

definition float_to_BYTE :: "int \<Rightarrow> BYTE option" where
  "float_to_BYTE r = (if 0 \<le> r \<and> r \<le> 255 then Some (word_of_int r) else None)"

section \<open>Grayscale\<close>

definition grayscale_px :: "RGBTRIPLE \<Rightarrow> RGBTRIPLE" where
  "grayscale_px p =
     (let average = cround (ddiv
            (int_to_double (uint (rgbtBlue p) + uint (rgbtRed p) + uint (rgbtGreen p))) 3)
      in p\<lparr>rgbtBlue := word_of_int average, rgbtRed := word_of_int average,
            rgbtGreen := word_of_int average\<rparr>)"

definition grayscale :: "nat \<Rightarrow> nat \<Rightarrow> grid \<Rightarrow> grid" where
  "grayscale height width img =
     for2 height width (\<lambda>row col img. put img row col (grayscale_px (img ! row ! col))) img"

section \<open>Sepia\<close>

definition sepia_px :: "RGBTRIPLE \<Rightarrow> RGBTRIPLE" where
  "sepia_px p =
     (let r = int_to_double (uint (rgbtRed p));
          g = int_to_double (uint (rgbtGreen p));
          b = int_to_double (uint (rgbtBlue p));
          sepiaRed = cround (dadd (dadd (dmul (dlit (393/1000)) r) (dmul (dlit (769/1000)) g))
                                  (dmul (dlit (189/1000)) b));
          sepiaGreen = cround (dadd (dadd (dmul (dlit (349/1000)) r) (dmul (dlit (686/1000)) g))
                                    (dmul (dlit (168/1000)) b));
          sepiaBlue = cround (dadd (dadd (dmul (dlit (272/1000)) r) (dmul (dlit (534/1000)) g))
                                   (dmul (dlit (131/1000)) b));
          sepiaRed = min sepiaRed 255;
          sepiaGreen = min sepiaGreen 255;
          sepiaBlue = min sepiaBlue 255;
          sepiaRed = max sepiaRed 0;
          sepiaGreen = max sepiaGreen 0;
          sepiaBlue = max sepiaBlue 0
      in p\<lparr>rgbtRed := word_of_int sepiaRed, rgbtGreen := word_of_int sepiaGreen,
            rgbtBlue := word_of_int sepiaBlue\<rparr>)"

definition sepia :: "nat \<Rightarrow> nat \<Rightarrow> grid \<Rightarrow> grid" where
  "sepia height width img =
     for2 height width (\<lambda>i j img. put img i j (sepia_px (img ! i ! j))) img"

section \<open>Reflect\<close>

text \<open>\<^verbatim>\<open>std::swap(row[a], row[b])\<close>.\<close>

definition swap :: "'a list \<Rightarrow> nat \<Rightarrow> nat \<Rightarrow> 'a list" where
  "swap row a b = (let tmp = row ! a in (row[a := row ! b])[b := tmp])"

definition reflect :: "nat \<Rightarrow> nat \<Rightarrow> grid \<Rightarrow> grid" where
  "reflect height width img =
     for2 height (width div 2) (\<lambda>i j img. img[i := swap (img ! i) j (width - j - 1)]) img"

text \<open>\<^verbatim>\<open>image_filters::reflect\<close>: \<^verbatim>\<open>std::reverse\<close> on every row.\<close>

definition ns_reflect :: "grid \<Rightarrow> grid" where
  "ns_reflect img = map rev img"

section \<open>Blur\<close>

text \<open>
  The accumulation over the 3x3 window of pixel \<open>(i, j)\<close>: the three channel totals
  (\<^verbatim>\<open>int\<close>) and \<^verbatim>\<open>pixelCount\<close> (\<^verbatim>\<open>float\<close>). The totals stay below \<open>9 * 255\<close>, so the
  \<^verbatim>\<open>int\<close> additions cannot overflow. \<open>blur_body\<close> is the body of the two inner loops.
\<close>

definition blur_body ::
  "nat \<Rightarrow> nat \<Rightarrow> grid \<Rightarrow> nat \<Rightarrow> nat \<Rightarrow> int \<Rightarrow> int \<Rightarrow> int \<times> int \<times> int \<times> rat \<Rightarrow> int \<times> int \<times> int \<times> rat" where
  "blur_body height width img i j dx dy =
     (\<lambda>(totalRed, totalGreen, totalBlue, pixelCount).
         let neighborX = int i + dx; neighborY = int j + dy in
         if neighborX \<ge> 0 \<and> neighborX < int height \<and> neighborY \<ge> 0 \<and> neighborY < int width
         then (totalRed + uint (rgbtRed (img ! nat neighborX ! nat neighborY)),
               totalGreen + uint (rgbtGreen (img ! nat neighborX ! nat neighborY)),
               totalBlue + uint (rgbtBlue (img ! nat neighborX ! nat neighborY)),
               fadd pixelCount 1)
         else (totalRed, totalGreen, totalBlue, pixelCount))"

definition blur_sums :: "nat \<Rightarrow> nat \<Rightarrow> grid \<Rightarrow> nat \<Rightarrow> nat \<Rightarrow> int \<times> int \<times> int \<times> rat" where
  "blur_sums height width img i j =
     fold (\<lambda>dx. fold (\<lambda>dy. blur_body height width img i j dx dy) [-1, 0, 1]) [-1, 0, 1]
       (0, 0, 0, 0)"

text \<open>
  The new value of \<^verbatim>\<open>copy[i][j]\<close>. A zero \<^verbatim>\<open>pixelCount\<close> would make the quotients
  infinite or NaN, and their conversion to \<^verbatim>\<open>BYTE\<close> undefined: the result is \<open>None\<close> then.
\<close>

definition blur_px :: "nat \<Rightarrow> nat \<Rightarrow> grid \<Rightarrow> nat \<Rightarrow> nat \<Rightarrow> RGBTRIPLE option" where
  "blur_px height width img i j =
     (case blur_sums height width img i j of (totalRed, totalGreen, totalBlue, pixelCount) \<Rightarrow>
        if pixelCount = 0 then None
        else do {
          r \<leftarrow> float_to_BYTE (cround (fdiv (int_to_float totalRed) pixelCount));
          g \<leftarrow> float_to_BYTE (cround (fdiv (int_to_float totalGreen) pixelCount));
          b \<leftarrow> float_to_BYTE (cround (fdiv (int_to_float totalBlue) pixelCount));
          Some \<lparr>rgbtBlue = b, rgbtGreen = g, rgbtRed = r\<rparr>
        })"

text \<open>The value-initialised pixel of \<^verbatim>\<open>std::vector<RGBTRIPLE>(width)\<close>.\<close>

definition zero_px :: RGBTRIPLE where
  "zero_px = \<lparr>rgbtBlue = 0, rgbtGreen = 0, rgbtRed = 0\<rparr>"

definition blur :: "nat \<Rightarrow> nat \<Rightarrow> grid \<Rightarrow> grid option" where
  "blur height width img =
     (let copy = replicate height (replicate width zero_px);
          copy = for2 height width (\<lambda>i j copy. put copy i j (img ! i ! j)) copy
      in case for2_opt height width
                (\<lambda>i j copy. map_option (put copy i j) (blur_px height width img i j)) copy of
           None \<Rightarrow> None
         | Some copy \<Rightarrow> Some (for2 height width (\<lambda>i j img. put img i j (copy ! i ! j)) img))"

subsection \<open>The namespaced variant\<close>

definition inBounds :: "int \<Rightarrow> int \<Rightarrow> int \<Rightarrow> int \<Rightarrow> bool" where
  "inBounds x y height width \<longleftrightarrow> x \<ge> 0 \<and> x < height \<and> y \<ge> 0 \<and> y < width"

definition ns_blur_body ::
  "nat \<Rightarrow> nat \<Rightarrow> grid \<Rightarrow> nat \<Rightarrow> nat \<Rightarrow> int \<Rightarrow> int \<Rightarrow> int \<times> int \<times> int \<times> int \<Rightarrow> int \<times> int \<times> int \<times> int" where
  "ns_blur_body height width img i j dx dy =
     (\<lambda>(totalRed, totalGreen, totalBlue, count).
         let nx = int i + dx; ny = int j + dy in
         if inBounds nx ny (int height) (int width)
         then (totalRed + uint (rgbtRed (img ! nat nx ! nat ny)),
               totalGreen + uint (rgbtGreen (img ! nat nx ! nat ny)),
               totalBlue + uint (rgbtBlue (img ! nat nx ! nat ny)),
               count + 1)
         else (totalRed, totalGreen, totalBlue, count))"

definition ns_blur_sums :: "nat \<Rightarrow> nat \<Rightarrow> grid \<Rightarrow> nat \<Rightarrow> nat \<Rightarrow> int \<times> int \<times> int \<times> int" where
  "ns_blur_sums height width img i j =
     fold (\<lambda>dx. fold (\<lambda>dy. ns_blur_body height width img i j dx dy) [-1, 0, 1]) [-1, 0, 1]
       (0, 0, 0, 0)"

definition ns_blur_px :: "nat \<Rightarrow> nat \<Rightarrow> grid \<Rightarrow> nat \<Rightarrow> nat \<Rightarrow> RGBTRIPLE option" where
  "ns_blur_px height width img i j =
     (case ns_blur_sums height width img i j of (totalRed, totalGreen, totalBlue, count) \<Rightarrow>
        if count = 0 then None
        else Some \<lparr>
          rgbtBlue = clamp (cround (fdiv (int_to_float totalBlue) (int_to_float count))) 0 255,
          rgbtGreen = clamp (cround (fdiv (int_to_float totalGreen) (int_to_float count))) 0 255,
          rgbtRed = clamp (cround (fdiv (int_to_float totalRed) (int_to_float count))) 0 255\<rparr>)"

definition ns_blur :: "grid \<Rightarrow> grid option" where
  "ns_blur img =
     (let height = length img in
      if height = 0 then Some img
      else let width = length (img ! 0); copy = img in
        for2_opt height width
          (\<lambda>i j copy. map_option (put copy i j) (ns_blur_px height width img i j)) copy)"

section \<open>Edge detection\<close>

definition Gx :: "int list" where
  "Gx = [-1, 0, 1, -2, 0, 2, -1, 0, 1]"

definition Gy :: "int list" where
  "Gy = [-1, -2, -1, 0, 0, 0, 1, 2, 1]"

text \<open>
  The accumulation over the 3x3 box around pixel \<open>(i, j)\<close>: the six gradient sums and
  \<^verbatim>\<open>kernel_position\<close>, which advances for every position of the box, in bounds or not.
  The sums stay below \<open>4 * 255\<close> in magnitude. \<open>edges_body\<close> is the body of the two inner loops.
\<close>

definition edges_body ::
  "nat \<Rightarrow> nat \<Rightarrow> grid \<Rightarrow> int \<Rightarrow> int \<Rightarrow> (int \<times> int \<times> int) \<times> (int \<times> int \<times> int) \<times> nat
     \<Rightarrow> (int \<times> int \<times> int) \<times> (int \<times> int \<times> int) \<times> nat" where
  "edges_body height width img y x =
     (\<lambda>((GxRed, GxBlue, GxGreen), (GyRed, GyBlue, GyGreen), kernel_position).
         if \<not> (x < 0 \<or> x \<ge> int width \<or> y < 0 \<or> y \<ge> int height)
         then ((GxRed + uint (rgbtRed (img ! nat y ! nat x)) * Gx ! kernel_position,
                GxBlue + uint (rgbtBlue (img ! nat y ! nat x)) * Gx ! kernel_position,
                GxGreen + uint (rgbtGreen (img ! nat y ! nat x)) * Gx ! kernel_position),
               (GyRed + uint (rgbtRed (img ! nat y ! nat x)) * Gy ! kernel_position,
                GyBlue + uint (rgbtBlue (img ! nat y ! nat x)) * Gy ! kernel_position,
                GyGreen + uint (rgbtGreen (img ! nat y ! nat x)) * Gy ! kernel_position),
               kernel_position + 1)
         else ((GxRed, GxBlue, GxGreen), (GyRed, GyBlue, GyGreen), kernel_position + 1))"

text \<open>
  The two window loops \<^verbatim>\<open>for (int y = i - 1; y <= i + 1; y++)\<close> and
  \<^verbatim>\<open>for (int x = j - 1; x <= j + 1; x++)\<close> count with a 32-bit \<^verbatim>\<open>int\<close>. Such a loop runs
  its body for \<open>lo, ..., hi\<close> and increments the counter once more after the last round;
  when \<open>hi\<close> is \<open>INT_MAX\<close> that increment overflows, which is undefined behaviour (\<open>None\<close>).
\<close>

definition INT_MAX :: int where
  "INT_MAX = 2147483647"

definition for_upto :: "int \<Rightarrow> int \<Rightarrow> (int \<Rightarrow> 's \<Rightarrow> 's option) \<Rightarrow> 's \<Rightarrow> 's option" where
  "for_upto lo hi body s =
     (if lo \<le> hi \<and> INT_MAX \<le> hi then None
      else fold (\<lambda>y so. Option.bind so (body y)) [lo..hi] (Some s))"

definition edges_sums ::
  "nat \<Rightarrow> nat \<Rightarrow> grid \<Rightarrow> nat \<Rightarrow> nat \<Rightarrow> ((int \<times> int \<times> int) \<times> (int \<times> int \<times> int) \<times> nat) option" where
  "edges_sums height width img i j =
     for_upto (int i - 1) (int i + 1)
       (\<lambda>y. for_upto (int j - 1) (int j + 1)
          (\<lambda>x s. Some (edges_body height width img y x s)))
       ((0, 0, 0), (0, 0, 0), 0)"

text \<open>\<^verbatim>\<open>round(sqrt(pow(gx, 2) + pow(gy, 2)))\<close>, capped at 255.\<close>

definition magnitude :: "int \<Rightarrow> int \<Rightarrow> int" where
  "magnitude gx gy =
     (let v = cround (dsqrt (dadd (dpow2 gx) (dpow2 gy))) in if v > 255 then 255 else v)"

definition edges_px :: "nat \<Rightarrow> nat \<Rightarrow> grid \<Rightarrow> nat \<Rightarrow> nat \<Rightarrow> RGBTRIPLE option" where
  "edges_px height width img i j =
     (case edges_sums height width img i j of
        None \<Rightarrow> None
      | Some ((GxRed, GxBlue, GxGreen), (GyRed, GyBlue, GyGreen), kernel_position) \<Rightarrow>
          let newRed = magnitude GxRed GyRed;
              newBlue = magnitude GxBlue GyBlue;
              newGreen = magnitude GxGreen GyGreen
          in Some \<lparr>rgbtBlue = word_of_int newBlue, rgbtGreen = word_of_int newGreen,
                    rgbtRed = word_of_int newRed\<rparr>)"

definition edges :: "nat \<Rightarrow> nat \<Rightarrow> grid \<Rightarrow> grid option" where
  "edges height width img =
     (let copy = replicate height (replicate width zero_px);
          copy = for2 height width (\<lambda>i j copy. put copy i j (img ! i ! j)) copy
      in case for2_opt height width
                (\<lambda>i j copy. map_option (put copy i j) (edges_px height width img i j)) copy of
           None \<Rightarrow> None
         | Some copy \<Rightarrow> Some (for2 height width (\<lambda>i j img. put img i j (copy ! i ! j)) img))"

section \<open>Specification-level notions\<close>

text \<open>The in-bounds positions of the 3x3 window centred on \<open>(i, j)\<close>.\<close>

definition neighbours :: "nat \<Rightarrow> nat \<Rightarrow> nat \<Rightarrow> nat \<Rightarrow> (int \<times> int) list" where
  "neighbours height width i j =
     filter (\<lambda>(y, x). 0 \<le> y \<and> y < int height \<and> 0 \<le> x \<and> x < int width)
       (List.product [int i - 1, int i, int i + 1] [int j - 1, int j, int j + 1])"

text \<open>The sum of a channel over the in-bounds window, read from \<open>img\<close>.\<close>

definition window_total :: "(RGBTRIPLE \<Rightarrow> BYTE) \<Rightarrow> nat \<Rightarrow> nat \<Rightarrow> grid \<Rightarrow> nat \<Rightarrow> nat \<Rightarrow> int" where
  "window_total ch height width img i j =
     (\<Sum>(y, x) \<leftarrow> neighbours height width i j. uint (ch (img ! nat y ! nat x)))"

text \<open>The exact arithmetic mean of a channel over the in-bounds window.\<close>

definition window_mean :: "(RGBTRIPLE \<Rightarrow> BYTE) \<Rightarrow> nat \<Rightarrow> nat \<Rightarrow> grid \<Rightarrow> nat \<Rightarrow> nat \<Rightarrow> rat" where
  "window_mean ch height width img i j =
     of_int (window_total ch height width img i j) / of_nat (length (neighbours height width i j))"

text \<open>
  The value both blur variants compute for a channel of pixel \<open>(i, j)\<close>: the \<^verbatim>\<open>float\<close>
  quotient of the window total by the window size, rounded by \<^verbatim>\<open>std::round\<close>.
\<close>

definition blur_channel :: "(RGBTRIPLE \<Rightarrow> BYTE) \<Rightarrow> nat \<Rightarrow> nat \<Rightarrow> grid \<Rightarrow> nat \<Rightarrow> nat \<Rightarrow> int" where
  "blur_channel ch height width img i j =
     cround (fdiv (int_to_float (window_total ch height width img i j))
                  (of_nat (length (neighbours height width i j))))"

definition blur_result :: "nat \<Rightarrow> nat \<Rightarrow> grid \<Rightarrow> nat \<Rightarrow> nat \<Rightarrow> RGBTRIPLE" where
  "blur_result height width img i j =
     \<lparr>rgbtBlue = word_of_int (blur_channel rgbtBlue height width img i j),
      rgbtGreen = word_of_int (blur_channel rgbtGreen height width img i j),
      rgbtRed = word_of_int (blur_channel rgbtRed height width img i j)\<rparr>"

text \<open>A channel sample where a position outside the image counts as 0.\<close>

definition sample :: "(RGBTRIPLE \<Rightarrow> BYTE) \<Rightarrow> nat \<Rightarrow> nat \<Rightarrow> grid \<Rightarrow> int \<Rightarrow> int \<Rightarrow> int" where
  "sample ch height width img y x =
     (if 0 \<le> y \<and> y < int height \<and> 0 \<le> x \<and> x < int width then uint (ch (img ! nat y ! nat x)) else 0)"

text \<open>The Sobel sums written out from the two kernels
  \<open>[-1 0 1; -2 0 2; -1 0 1]\<close> and \<open>[-1 -2 -1; 0 0 0; 1 2 1]\<close>.\<close>

definition sobel_x :: "(RGBTRIPLE \<Rightarrow> BYTE) \<Rightarrow> nat \<Rightarrow> nat \<Rightarrow> grid \<Rightarrow> nat \<Rightarrow> nat \<Rightarrow> int" where
  "sobel_x ch height width img i j =
     (let s = sample ch height width img; y = int i; x = int j in
      - s (y - 1) (x - 1) + s (y - 1) (x + 1)
      - 2 * s y (x - 1) + 2 * s y (x + 1)
      - s (y + 1) (x - 1) + s (y + 1) (x + 1))"

definition sobel_y :: "(RGBTRIPLE \<Rightarrow> BYTE) \<Rightarrow> nat \<Rightarrow> nat \<Rightarrow> grid \<Rightarrow> nat \<Rightarrow> nat \<Rightarrow> int" where
  "sobel_y ch height width img i j =
     (let s = sample ch height width img; y = int i; x = int j in
      - s (y - 1) (x - 1) - 2 * s (y - 1) x - s (y - 1) (x + 1)
      + s (y + 1) (x - 1) + 2 * s (y + 1) x + s (y + 1) (x + 1))"

text \<open>
  The pixel \<^verbatim>\<open>edges\<close> computes at \<open>(i, j)\<close> when its loops run without overflow: per channel
  the capped, rounded magnitude of the two Sobel sums.
\<close>

definition edges_result :: "nat \<Rightarrow> nat \<Rightarrow> grid \<Rightarrow> nat \<Rightarrow> nat \<Rightarrow> RGBTRIPLE" where
  "edges_result height width img i j =
     \<lparr>rgbtBlue = word_of_int (magnitude (sobel_x rgbtBlue height width img i j)
                                        (sobel_y rgbtBlue height width img i j)),
      rgbtGreen = word_of_int (magnitude (sobel_x rgbtGreen height width img i j)
                                         (sobel_y rgbtGreen height width img i j)),
      rgbtRed = word_of_int (magnitude (sobel_x rgbtRed height width img i j)
                                       (sobel_y rgbtRed height width img i j))\<rparr>"

text \<open>
  The sepia matrix of the specification, in exact arithmetic:
  \<open>R' = 0.393 R + 0.769 G + 0.189 B\<close>, \<open>G' = 0.349 R + 0.686 G + 0.168 B\<close>,
  \<open>B' = 0.272 R + 0.534 G + 0.131 B\<close>, on the original channel values.
\<close>

definition sepia_matrix :: "RGBTRIPLE \<Rightarrow> rat \<times> rat \<times> rat" where
  "sepia_matrix p =
     (let R = of_int (uint (rgbtRed p)); G = of_int (uint (rgbtGreen p)); B = of_int (uint (rgbtBlue p))
      in (393/1000 * R + 769/1000 * G + 189/1000 * B,
          349/1000 * R + 686/1000 * G + 168/1000 * B,
          272/1000 * R + 534/1000 * G + 131/1000 * B))"

text \<open>\<open>r\<close> is an integer nearest to \<open>v\<close>.\<close>

definition nearest_int :: "rat \<Rightarrow> int \<Rightarrow> bool" where
  "nearest_int v r \<longleftrightarrow> \<bar>of_int r - v\<bar> \<le> 1/2"

section \<open>Properties of the rounding model\<close>

lemma bitlen_powi_bounds:
  assumes "0 < a"
  shows "(2::rat) powi (bitlen a - 1) \<le> of_int a" and "of_int a < (2::rat) powi (bitlen a)"
proof -
  from assms have b1: "1 \<le> bitlen a"
    using bitlen_eq_zero_iff [of a] bitlen_nonneg [of a] by linarith
  from bitlen_bounds [OF assms]
  have lo: "2 ^ nat (bitlen a - 1) \<le> a" and hi: "a < 2 ^ nat (bitlen a)" by simp_all
  have "(2::rat) powi (bitlen a - 1) = 2 ^ nat (bitlen a - 1)"
    using b1 by (simp add: power_int_def)
  also have "\<dots> = of_int (2 ^ nat (bitlen a - 1))" by simp
  also have "\<dots> \<le> of_int a" using lo by (simp only: of_int_le_iff)
  finally show "(2::rat) powi (bitlen a - 1) \<le> of_int a" .
  have "(of_int a :: rat) < of_int (2 ^ nat (bitlen a))" using hi by (simp only: of_int_less_iff)
  also have "\<dots> = 2 powi (bitlen a)" using b1 by (simp add: power_int_def)
  finally show "of_int a < (2::rat) powi (bitlen a)" .
qed

lemma powi2_diff: "(2::rat) powi (a - b) = 2 powi a / 2 powi b"
  by (simp add: power_int_diff)

lemma powi2_mono: "a \<le> b \<Longrightarrow> (2::rat) powi a \<le> 2 powi b"
  by (rule power_int_increasing) simp_all

lemma powi2_less_cancel: "(2::rat) powi a < 2 powi b \<Longrightarrow> a < b"
  using powi2_mono [of b a] by (cases "a < b") auto

text \<open>The exponent brackets the magnitude.\<close>

lemma expo_bounds:
  assumes "q \<noteq> 0"
  shows "2 powi (expo q) \<le> \<bar>q\<bar>" and "\<bar>q\<bar> < 2 powi (expo q + 1)"
proof -
  obtain a b where ab: "quotient_of \<bar>q\<bar> = (a, b)" by (cases "quotient_of \<bar>q\<bar>")
  have bpos: "0 < b" using quotient_of_denom_pos [OF ab] .
  have qab: "\<bar>q\<bar> = of_int a / of_int b" using quotient_of_div [OF ab] .
  have apos: "0 < a"
  proof -
    have "0 < \<bar>q\<bar>" using assms by simp
    then have "0 < (of_int a :: rat) / of_int b" using qab by simp
    then show ?thesis using bpos by (simp add: zero_less_divide_iff)
  qed
  let ?e = "bitlen a - bitlen b"
  have lo: "(2::rat) powi (?e - 1) \<le> \<bar>q\<bar>"
  proof -
    have "(2::rat) powi (?e - 1) = 2 powi (bitlen a - 1) / 2 powi (bitlen b)"
      by (simp add: powi2_diff [symmetric] algebra_simps)
    also have "\<dots> \<le> of_int a / of_int b"
      using bitlen_powi_bounds [OF apos] bitlen_powi_bounds [OF bpos] apos bpos
      by (intro frac_le) simp_all
    finally show ?thesis using qab by simp
  qed
  have hi: "\<bar>q\<bar> < (2::rat) powi (?e + 1)"
  proof -
    have "of_int a / of_int b < (2::rat) powi (bitlen a) / 2 powi (bitlen b - 1)"
      using bitlen_powi_bounds [OF apos] bitlen_powi_bounds [OF bpos] apos
      by (intro frac_less) simp_all
    also have "\<dots> = 2 powi (?e + 1)"
      by (simp add: powi2_diff [symmetric] algebra_simps)
    finally show ?thesis using qab by simp
  qed
  have e: "expo q = (if 2 powi ?e \<le> \<bar>q\<bar> then ?e else ?e - 1)"
    by (simp add: expo_def ab Let_def)
  show "2 powi (expo q) \<le> \<bar>q\<bar>" using lo by (simp add: e)
  show "\<bar>q\<bar> < 2 powi (expo q + 1)" using hi by (auto simp add: e not_le)
qed

lemma round_even_err: "\<bar>of_int (round_even m) - m\<bar> \<le> 1/2"
proof -
  have "of_int \<lfloor>m\<rfloor> \<le> m" "m < of_int \<lfloor>m\<rfloor> + 1" by linarith+
  then show ?thesis
    unfolding round_even_def Let_def by (auto simp: abs_le_iff)
qed

lemma round_even_of_int [simp]: "round_even (of_int n) = n"
  by (simp add: round_even_def)

text \<open>Rounding moves a value by at most half a unit in the last place.\<close>

lemma rn_err:
  assumes "q \<noteq> 0"
  shows "\<bar>rn p q - q\<bar> \<le> 2 powi (expo q - int p)"
proof -
  define u :: rat where "u = 2 powi (expo q - int p + 1)"
  have upos: "0 < u" by (simp add: u_def)
  have r: "rn p q = of_int (round_even (q / u)) * u"
    using assms by (simp add: rn_def u_def Let_def)
  have "rn p q - q = (of_int (round_even (q / u)) - q / u) * u"
    using upos by (simp add: r left_diff_distrib)
  then have "\<bar>rn p q - q\<bar> = \<bar>of_int (round_even (q / u)) - q / u\<bar> * u"
    using upos by (simp only: abs_mult abs_of_pos)
  also have "\<dots> \<le> (1/2) * u"
    using round_even_err [of "q / u"] upos by (intro mult_right_mono) simp_all
  also have "\<dots> = 2 powi (expo q - int p)"
    by (simp add: u_def power_int_add)
  finally show ?thesis .
qed

lemma rn_rel_err: "\<bar>rn p q - q\<bar> \<le> \<bar>q\<bar> / 2 ^ p"
proof (cases "q = 0")
  case True
  then show ?thesis by (simp add: rn_def)
next
  case False
  have "\<bar>rn p q - q\<bar> \<le> 2 powi (expo q - int p)" by (rule rn_err [OF False])
  also have "\<dots> = 2 powi (expo q) / 2 ^ p" by (simp add: powi2_diff)
  also have "\<dots> \<le> \<bar>q\<bar> / 2 ^ p"
    using expo_bounds(1) [OF False] by (intro divide_right_mono) simp_all
  finally show ?thesis .
qed

text \<open>A value whose significand fits the precision is not changed by rounding.\<close>

lemma rn_exact:
  assumes "\<bar>n\<bar> < 2 ^ p"
  shows "rn p (of_int n * 2 powi j) = of_int n * 2 powi j"
proof (cases "n = 0")
  case True
  then show ?thesis by (simp add: rn_def)
next
  case False
  define q :: rat where "q = of_int n * 2 powi j"
  have q0: "q \<noteq> 0" using False by (simp add: q_def)
  have "2 powi (expo q) \<le> \<bar>q\<bar>" by (rule expo_bounds(1) [OF q0])
  also have "\<bar>q\<bar> = of_int \<bar>n\<bar> * 2 powi j" by (simp add: q_def abs_mult)
  also have "\<dots> < 2 ^ p * 2 powi j"
  proof -
    have "(of_int \<bar>n\<bar> :: rat) < of_int (2 ^ p)" using assms by (simp only: of_int_less_iff)
    then show ?thesis by (intro mult_strict_right_mono) simp_all
  qed
  also have "\<dots> = 2 powi (int p + j)" by (simp add: power_int_add)
  finally have "expo q < int p + j" by (rule powi2_less_cancel)
  then have "0 \<le> j - (expo q - int p + 1)" by simp
  then obtain k :: nat where "j - (expo q - int p + 1) = int k"
    using nonneg_int_cases by blast
  then have k: "j = expo q - int p + 1 + int k" by simp
  define u :: rat where "u = 2 powi (expo q - int p + 1)"
  have upos: "0 < u" by (simp add: u_def)
  have "2 powi j = u * 2 ^ k" unfolding u_def by (subst k) (simp add: power_int_add)
  then have qu: "q / u = of_int (n * 2 ^ k)" using upos by (simp add: q_def)
  have "rn p q = of_int (round_even (q / u)) * u"
    using q0 by (simp add: rn_def u_def Let_def)
  also have "\<dots> = (q / u) * u" by (simp only: qu round_even_of_int)
  also have "\<dots> = q" using upos by simp
  finally show ?thesis by (simp add: q_def)
qed

lemma rn_of_int: "\<bar>n\<bar> < 2 ^ p \<Longrightarrow> rn p (of_int n) = of_int n"
  using rn_exact [of n p 0] by simp

lemma cround_of_int [simp]: "cround (of_int n) = n"
  by (simp add: cround_def) linarith

lemma cround_nonneg: "0 \<le> d \<Longrightarrow> of_int (cround d) \<le> d + 1/2 \<and> d - 1/2 < of_int (cround d)"
  unfolding cround_def by simp linarith

section \<open>Loops over the image\<close>


lemma fold_upd:
  "n \<le> length xs \<Longrightarrow>
   fold (\<lambda>k xs. xs[k := f k (xs ! k)]) [0..<n] xs = map (\<lambda>k. f k (xs ! k)) [0..<n] @ drop n xs"
proof (induction n)
  case 0
  then show ?case by simp
next
  case (Suc n)
  then have n: "n < length xs" by simp
  have d: "drop n xs = xs ! n # drop (Suc n) xs"
    using n by (simp add: Cons_nth_drop_Suc)
  show ?case
    using Suc n by (simp add: d nth_append list_update_append)
qed

lemma row_lift:
  "fold (\<lambda>j c. c[i := g j (c ! i)]) js c = c[i := fold g js (c ! i)]"
proof (cases "i < length c")
  case True
  then show ?thesis by (induction js arbitrary: c) simp_all
next
  case False
  then have le: "length c \<le> i" by simp
  then have "fold (\<lambda>j c. c[i := g j (c ! i)]) js c = c"
    by (induction js arbitrary: c) (simp_all add: list_update_beyond)
  then show ?thesis using le by (simp add: list_update_beyond)
qed

lemma for2_rows:
  assumes "h \<le> length c"
  shows "for2 h w (\<lambda>i j c. c[i := g i j (c ! i)]) c =
         map (\<lambda>i. fold (g i) [0..<w] (c ! i)) [0..<h] @ drop h c"
proof -
  have "(\<lambda>i. fold (\<lambda>j c. c[i := g i j (c ! i)]) [0..<w]) =
        (\<lambda>i c. c[i := fold (g i) [0..<w] (c ! i)])"
    by (simp add: fun_eq_iff row_lift)
  then have "for2 h w (\<lambda>i j c. c[i := g i j (c ! i)]) c =
        fold (\<lambda>i c. c[i := fold (g i) [0..<w] (c ! i)]) [0..<h] c"
    unfolding for2_def by simp
  also have "\<dots> = map (\<lambda>i. fold (g i) [0..<w] (c ! i)) [0..<h] @ drop h c"
    using assms by (rule fold_upd)
  finally show ?thesis .
qed

lemma valid_grid_nth: "valid_grid h w c \<Longrightarrow> i < h \<Longrightarrow> length (c ! i) = w"
  by (simp add: valid_grid_def)

lemma valid_grid_length: "valid_grid h w c \<Longrightarrow> length c = h"
  by (simp add: valid_grid_def)

text \<open>A loop nest that rewrites every pixel from its own old value.\<close>

lemma for2_put:
  assumes "valid_grid h w c"
  shows "for2 h w (\<lambda>i j c. put c i j (G i j (c ! i ! j))) c =
         map (\<lambda>i. map (\<lambda>j. G i j (c ! i ! j)) [0..<w]) [0..<h]"
proof -
  have len: "length c = h" using assms by (rule valid_grid_length)
  have "for2 h w (\<lambda>i j c. put c i j (G i j (c ! i ! j))) c =
        for2 h w (\<lambda>i j c. c[i := (\<lambda>r. r[j := G i j (r ! j)]) (c ! i)]) c"
    by (simp add: put_def)
  also have "\<dots> = map (\<lambda>i. fold (\<lambda>j r. r[j := G i j (r ! j)]) [0..<w] (c ! i)) [0..<h] @ drop h c"
    using len by (intro for2_rows) simp
  also have "\<dots> = map (\<lambda>i. map (\<lambda>j. G i j (c ! i ! j)) [0..<w]) [0..<h]"
    using len valid_grid_nth [OF assms] by (simp add: fold_upd)
  finally show ?thesis .
qed

lemma map_nth_grid:
  assumes "valid_grid h w c"
  shows "map (\<lambda>i. map (\<lambda>j. c ! i ! j) [0..<w]) [0..<h] = c"
proof -
  have row: "map (\<lambda>j. c ! i ! j) [0..<w] = c ! i" if "i < h" for i
    using valid_grid_nth [OF assms that] map_nth [of "c ! i"] by simp
  have "map (\<lambda>i. map (\<lambda>j. c ! i ! j) [0..<w]) [0..<h] = map (\<lambda>i. c ! i) [0..<h]"
    by (rule map_cong) (simp_all add: row)
  also have "\<dots> = c" using valid_grid_length [OF assms] by (auto simp: map_nth)
  finally show ?thesis .
qed

lemma for2_map:
  assumes "valid_grid h w c"
  shows "for2 h w (\<lambda>i j c. put c i j (f (c ! i ! j))) c = map (map f) c"
proof -
  have "for2 h w (\<lambda>i j c. put c i j (f (c ! i ! j))) c =
        map (\<lambda>i. map (\<lambda>j. f (c ! i ! j)) [0..<w]) [0..<h]"
    using assms by (rule for2_put)
  also have "\<dots> = map (map f) (map (\<lambda>i. map (\<lambda>j. c ! i ! j) [0..<w]) [0..<h])"
    by (simp add: comp_def)
  also have "\<dots> = map (map f) c" by (simp only: map_nth_grid [OF assms])
  finally show ?thesis .
qed

lemma valid_grid_tabulate: "valid_grid h w (map (\<lambda>i. map (F i) [0..<w]) [0..<h])"
  by (auto simp: valid_grid_def)

lemma valid_grid_map: "valid_grid h w c \<Longrightarrow> valid_grid h w (map (map f) c)"
  by (auto simp: valid_grid_def)

lemma valid_grid_replicate: "valid_grid h w (replicate h (replicate w p))"
  by (auto simp: valid_grid_def)

text \<open>Filling a grid of the right shape with computed pixels.\<close>

lemma for2_fill:
  assumes "valid_grid h w c"
  shows "for2 h w (\<lambda>i j c. put c i j (F i j)) c = map (\<lambda>i. map (F i) [0..<w]) [0..<h]"
  using for2_put [OF assms, of "\<lambda>i j _. F i j"] by simp

lemma for2_copy:
  assumes "valid_grid h w c" "valid_grid h w d"
  shows "for2 h w (\<lambda>i j c. put c i j (d ! i ! j)) c = d"
  using for2_fill [OF assms(1), of "\<lambda>i j. d ! i ! j"] map_nth_grid [OF assms(2)] by simp


lemma swap_fold_inv:
  assumes "length r = w" "k \<le> w div 2"
  shows "length (fold (\<lambda>j r. swap r j (w - j - 1)) [0..<k] r) = w \<and>
         (\<forall>m<w. fold (\<lambda>j r. swap r j (w - j - 1)) [0..<k] r ! m =
                (if m < k \<or> w - k \<le> m then r ! (w - 1 - m) else r ! m))"
  using assms(2)
proof (induction k)
  case 0
  then show ?case using assms(1) by simp
next
  case (Suc k)
  define r' where "r' = fold (\<lambda>j r. swap r j (w - j - 1)) [0..<k] r"
  from Suc have len: "length r' = w"
    and nth: "\<And>m. m < w \<Longrightarrow> r' ! m = (if m < k \<or> w - k \<le> m then r ! (w - 1 - m) else r ! m)"
    by (simp_all add: r'_def)
  from Suc.prems have k: "k < w - k - 1" "w - k - 1 < w" by linarith+
  have step: "fold (\<lambda>j r. swap r j (w - j - 1)) [0..<Suc k] r = swap r' k (w - k - 1)"
    by (simp add: r'_def)
  have nk: "\<not> w - k \<le> k" "\<not> w - k - 1 < k" "\<not> w - k \<le> w - k - 1" "k < w"
    using k by linarith+
  have a: "r' ! k = r ! k" using nth [of k] nk by simp
  have b: "r' ! (w - k - 1) = r ! (w - k - 1)" using nth [OF k(2)] nk by simp
  show ?case
  proof (intro conjI allI impI)
    show "length (fold (\<lambda>j r. swap r j (w - j - 1)) [0..<Suc k] r) = w"
      unfolding step by (simp add: swap_def len)
  next
    fix m assume m: "m < w"
    consider "m = k" | "m = w - k - 1" | "m \<noteq> k" "m \<noteq> w - k - 1" by blast
    then show "fold (\<lambda>j r. swap r j (w - j - 1)) [0..<Suc k] r ! m =
               (if m < Suc k \<or> w - Suc k \<le> m then r ! (w - 1 - m) else r ! m)"
    proof cases
      case 1
      then show ?thesis unfolding step using k nk len b by (simp add: swap_def)
    next
      case 2
      then show ?thesis unfolding step using k nk len a by (simp add: swap_def)
    next
      case 3
      then have "swap r' k (w - k - 1) ! m = r' ! m" by (simp add: swap_def)
      moreover have "(m < Suc k \<or> w - Suc k \<le> m) = (m < k \<or> w - k \<le> m)"
        using 3 k by auto
      ultimately show ?thesis using nth [OF m] by (simp only: step)
    qed
  qed
qed

lemma swap_fold_rev:
  assumes "length r = w"
  shows "fold (\<lambda>j r. swap r j (w - j - 1)) [0..<w div 2] r = rev r"
proof (rule nth_equalityI)
  show "length (fold (\<lambda>j r. swap r j (w - j - 1)) [0..<w div 2] r) = length (rev r)"
    using swap_fold_inv [OF assms, of "w div 2"] assms by simp
next
  fix m assume "m < length (fold (\<lambda>j r. swap r j (w - j - 1)) [0..<w div 2] r)"
  then have m: "m < w" using swap_fold_inv [OF assms, of "w div 2"] by simp
  have "fold (\<lambda>j r. swap r j (w - j - 1)) [0..<w div 2] r ! m =
        (if m < w div 2 \<or> w - w div 2 \<le> m then r ! (w - 1 - m) else r ! m)"
    using swap_fold_inv [OF assms, of "w div 2"] m by simp
  also have "\<dots> = r ! (w - 1 - m)"
  proof (cases "m < w div 2 \<or> w - w div 2 \<le> m")
    case True
    then show ?thesis by simp
  next
    case False
    then have "w - 1 - m = m" using m by linarith
    then show ?thesis by simp
  qed
  also have "\<dots> = rev r ! m" using m assms by (simp add: rev_nth)
  finally show "fold (\<lambda>j r. swap r j (w - j - 1)) [0..<w div 2] r ! m = rev r ! m" .
qed

lemma reflect_rev:
  assumes "valid_grid h w c"
  shows "reflect h w c = map rev c"
proof -
  have len: "length c = h" using assms by (rule valid_grid_length)
  have "reflect h w c =
        map (\<lambda>i. fold (\<lambda>j r. swap r j (w - j - 1)) [0..<w div 2] (c ! i)) [0..<h] @ drop h c"
    unfolding reflect_def using len by (intro for2_rows) simp
  also have "\<dots> = map (\<lambda>i. rev (c ! i)) [0..<h]"
  proof -
    have "map (\<lambda>i. fold (\<lambda>j r. swap r j (w - j - 1)) [0..<w div 2] (c ! i)) [0..<h] =
          map (\<lambda>i. rev (c ! i)) [0..<h]"
    proof (rule map_cong)
      fix i assume "i \<in> set [0..<h]"
      then have "length (c ! i) = w" using valid_grid_nth [OF assms] by simp
      then show "fold (\<lambda>j r. swap r j (w - j - 1)) [0..<w div 2] (c ! i) = rev (c ! i)"
        by (rule swap_fold_rev)
    qed simp
    then show ?thesis using len by simp
  qed
  also have "\<dots> = map rev (map (\<lambda>i. c ! i) [0..<h])" by (simp add: comp_def)
  also have "\<dots> = map rev c" using len map_nth [of c] by simp
  finally show ?thesis .
qed

lemma valid_grid_map_rev: "valid_grid h w c \<Longrightarrow> valid_grid h w (map rev c)"
  by (auto simp: valid_grid_def)

text \<open>
  C7. Reflect is an involution: on a structurally valid grid, applying it twice gives
  back the original grid. This holds for the swapping loop of \<^verbatim>\<open>reflect\<close> and for the
  \<^verbatim>\<open>std::reverse\<close> of \<^verbatim>\<open>image_filters::reflect\<close>.
\<close>

theorem reflect_involution:
  assumes "valid_grid height width img"
  shows "reflect height width (reflect height width img) = img \<and>
         ns_reflect (ns_reflect img) = img"
proof -
  have "reflect height width (reflect height width img) = map rev (map rev img)"
    using assms by (simp add: reflect_rev valid_grid_map_rev)
  then have "reflect height width (reflect height width img) = img"
    by (simp add: comp_def)
  moreover have "ns_reflect (ns_reflect img) = img"
    by (simp add: ns_reflect_def comp_def)
  ultimately show ?thesis by simp
qed

theorem reflect_involution_witness:
  "valid_grid 1 3 [[rgb 255 0 0, rgb 0 255 0, rgb 0 0 255]] \<and>
   reflect 1 3 (reflect 1 3 [[rgb 255 0 0, rgb 0 255 0, rgb 0 0 255]]) =
     [[rgb 255 0 0, rgb 0 255 0, rgb 0 0 255]] \<and>
   ns_reflect (ns_reflect [[rgb 255 0 0, rgb 0 255 0, rgb 0 0 255]]) =
     [[rgb 255 0 0, rgb 0 255 0, rgb 0 0 255]]"
  using reflect_involution [of 1 3 "[[rgb 255 0 0, rgb 0 255 0, rgb 0 0 255]]"]
  by (simp add: valid_grid_def)

section \<open>Grayscale is the rounded average\<close>


lemma cround_near:
  assumes "0 \<le> d" "\<bar>d - q\<bar> \<le> e" "of_int k + e \<le> q + 1/2" "q + 1/2 + e < of_int k + 1"
  shows "cround d = k"
proof -
  have "of_int k \<le> d + 1/2" "d + 1/2 < of_int k + 1" using assms by (simp_all add: abs_le_iff)
  then have "\<lfloor>d + 1/2\<rfloor> = k" by (simp add: floor_unique)
  then show ?thesis using assms(1) by (simp add: cround_def)
qed

lemma rn_nonneg: "0 \<le> q \<Longrightarrow> 0 \<le> rn p q"
  by (simp add: rn_def Let_def round_even_def zero_le_mult_iff zero_le_divide_iff)

lemma rn53_small_err:
  assumes "\<bar>q\<bar> \<le> 1024"
  shows "\<bar>rn 53 q - q\<bar> \<le> 1 / 2 ^ 43"
proof -
  have "\<bar>rn 53 q - q\<bar> \<le> \<bar>q\<bar> / 2 ^ 53" by (rule rn_rel_err)
  also have "\<dots> \<le> 1024 / 2 ^ 53" using assms by (intro divide_right_mono) simp_all
  also have "\<dots> = 1 / 2 ^ 43" by simp
  finally show ?thesis .
qed

lemma floor_third: "\<lfloor>(of_int s :: rat) / 3 + 1/2\<rfloor> = (2 * s + 3) div 6"
proof -
  have "(of_int s :: rat) / 3 + 1/2 = of_int (2 * s + 3) / of_int 6" by simp
  then show ?thesis by (simp only: floor_divide_of_int_eq)
qed

lemma gray_round:
  assumes "0 \<le> s" "s \<le> 765"
  shows "cround (ddiv (int_to_double s) 3) = \<lfloor>(of_int s :: rat) / 3 + 1/2\<rfloor>"
proof -
  define k where "k = (2 * s + 3) div 6"
  have s53: "\<bar>s\<bar> < 2 ^ 53" using assms by simp
  have d: "ddiv (int_to_double s) 3 = rn 53 (of_int s / 3)"
    by (simp add: ddiv_def int_to_double_def rn_of_int [OF s53])
  have q: "\<bar>(of_int s :: rat) / 3\<bar> \<le> 1024" using assms by simp
  have err: "\<bar>rn 53 (of_int s / 3) - of_int s / 3\<bar> \<le> 1 / 2 ^ 43"
    by (rule rn53_small_err [OF q])
  have "12 * k + 2 \<le> 4 * s + 6" "4 * s + 7 \<le> 12 * k + 11"
    unfolding k_def by presburger+
  then have "(of_int (12 * k + 2) :: rat) \<le> of_int (4 * s + 6)"
    "(of_int (4 * s + 7) :: rat) \<le> of_int (12 * k + 11)"
    by (simp_all only: of_int_le_iff)
  then have b: "(of_int k :: rat) + 1 / 2 ^ 43 \<le> of_int s / 3 + 1/2"
    "(of_int s :: rat) / 3 + 1/2 + 1 / 2 ^ 43 < of_int k + 1"
    by simp_all
  have "cround (rn 53 (of_int s / 3)) = k"
    using assms by (intro cround_near [OF _ err b] rn_nonneg) simp
  then show ?thesis by (simp add: d floor_third k_def)
qed

lemma uint_byte_sum:
  fixes a b c :: BYTE
  shows "0 \<le> uint a + uint b + uint c" "uint a + uint b + uint c \<le> 765"
  using uint_lt2p [of a] uint_lt2p [of b] uint_lt2p [of c] by simp_all

lemma gray_avg_bounds:
  assumes "0 \<le> s" "s \<le> 765"
  shows "0 \<le> \<lfloor>(of_int s :: rat) / 3 + 1/2\<rfloor>" "\<lfloor>(of_int s :: rat) / 3 + 1/2\<rfloor> \<le> 255"
  using assms unfolding floor_third by presburger+

lemma uint_word_of_int_byte: "0 \<le> a \<Longrightarrow> a \<le> 255 \<Longrightarrow> uint (word_of_int a :: BYTE) = a"
  by (simp add: uint_word_of_int take_bit_int_eq_self)

lemma grayscale_px_channels:
  fixes p :: RGBTRIPLE
  defines "avg \<equiv> \<lfloor>(of_int (uint (rgbtRed p) + uint (rgbtGreen p) + uint (rgbtBlue p)) :: rat) / 3 + 1/2\<rfloor>"
  shows "uint (rgbtRed (grayscale_px p)) = avg" "uint (rgbtGreen (grayscale_px p)) = avg"
    "uint (rgbtBlue (grayscale_px p)) = avg" "0 \<le> avg" "avg \<le> 255"
proof -
  define s where "s = uint (rgbtRed p) + uint (rgbtGreen p) + uint (rgbtBlue p)"
  have s: "0 \<le> s" "s \<le> 765" unfolding s_def by (rule uint_byte_sum)+
  have s': "uint (rgbtBlue p) + uint (rgbtRed p) + uint (rgbtGreen p) = s" by (simp add: s_def)
  have avg: "avg = \<lfloor>(of_int s :: rat) / 3 + 1/2\<rfloor>" by (simp add: avg_def s_def)
  show b: "0 \<le> avg" "avg \<le> 255" unfolding avg by (rule gray_avg_bounds [OF s])+
  have px: "grayscale_px p = p\<lparr>rgbtBlue := word_of_int avg, rgbtRed := word_of_int avg,
      rgbtGreen := word_of_int avg\<rparr>"
    unfolding grayscale_px_def s' gray_round [OF s] avg Let_def ..
  show "uint (rgbtRed (grayscale_px p)) = avg" "uint (rgbtGreen (grayscale_px p)) = avg"
    "uint (rgbtBlue (grayscale_px p)) = avg"
    using b by (simp_all add: px uint_word_of_int_byte)
qed

lemma grayscale_map: "valid_grid h w c \<Longrightarrow> grayscale h w c = map (map grayscale_px) c"
  unfolding grayscale_def by (rule for2_map)


text \<open>
  C6. Grayscale gives all three channels of every pixel the same value: the unweighted
  average of the pixel's original red, green and blue, rounded to the nearest integer
  with halves rounded up. The value lies in \<open>[0, 255]\<close>, so the clamp changes nothing.
\<close>

theorem grayscale_average:
  assumes "valid_grid height width img" "i < height" "j < width"
  shows "let p = img ! i ! j;
             q = grayscale height width img ! i ! j;
             avg = \<lfloor>(of_int (uint (rgbtRed p) + uint (rgbtGreen p) + uint (rgbtBlue p)) :: rat) / 3 + 1/2\<rfloor>
         in 0 \<le> avg \<and> avg \<le> 255 \<and>
            uint (rgbtRed q) = avg \<and> uint (rgbtGreen q) = avg \<and> uint (rgbtBlue q) = avg"
proof -
  have "length img = height" "length (img ! i) = width"
    using assms valid_grid_length valid_grid_nth by blast+
  then have "grayscale height width img ! i ! j = grayscale_px (img ! i ! j)"
    using assms by (simp add: grayscale_map)
  then show ?thesis
    using grayscale_px_channels [of "img ! i ! j"] by (simp add: Let_def)
qed

theorem grayscale_average_witness:
  "valid_grid 1 1 [[rgb 100 150 201]] \<and> (0::nat) < 1 \<and>
   uint (rgbtRed (grayscale 1 1 [[rgb 100 150 201]] ! 0 ! 0)) = 150 \<and>
   uint (rgbtGreen (grayscale 1 1 [[rgb 100 150 201]] ! 0 ! 0)) = 150 \<and>
   uint (rgbtBlue (grayscale 1 1 [[rgb 100 150 201]] ! 0 ! 0)) = 150"
proof -
  have f: "\<lfloor>(905::rat) / 6\<rfloor> = 150" by (rule floor_unique) simp_all
  show ?thesis
    using grayscale_average [of 1 1 "[[rgb 100 150 201]]" 0 0]
    by (simp add: valid_grid_def rgb_def Let_def f)
qed

section \<open>The window sums of blur\<close>


lemma fold_product:
  "fold (\<lambda>x. fold (\<lambda>y. F x y) ys) xs s = fold (\<lambda>(x, y). F x y) (List.product xs ys) s"
proof (induction xs arbitrary: s)
  case Nil
  then show ?case by simp
next
  case (Cons x xs)
  have "fold (\<lambda>(x, y). F x y) (map (Pair x) ys) s = fold (F x) ys s"
    by (simp add: fold_map comp_def)
  then show ?case using Cons by simp
qed

text \<open>The positions of the window, as offsets and as coordinates.\<close>

lemma neighbours_offsets:
  "neighbours h w i j =
     map (\<lambda>(dx, dy). (int i + dx, int j + dy))
       (filter (\<lambda>(dx, dy). 0 \<le> int i + dx \<and> int i + dx < int h \<and> 0 \<le> int j + dy \<and> int j + dy < int w)
          (List.product [-1, 0, 1] [-1, 0, 1]))"
proof -
  have "List.product [int i - 1, int i, int i + 1] [int j - 1, int j, int j + 1] =
        map (\<lambda>(dx, dy). (int i + dx, int j + dy)) (List.product [-1, 0, 1] [-1, 0, 1])"
    by simp
  then show ?thesis
    unfolding neighbours_def by (simp only: filter_map comp_def split_def fst_conv snd_conv)
qed

lemma length_neighbours_le: "length (neighbours h w i j) \<le> 9"
proof -
  have "length (neighbours h w i j) \<le>
        length (List.product [int i - 1, int i, int i + 1] [int j - 1, int j, int j + 1])"
    unfolding neighbours_def by (rule length_filter_le)
  then show ?thesis by simp
qed

lemma centre_in_neighbours: "i < h \<Longrightarrow> j < w \<Longrightarrow> (int i, int j) \<in> set (neighbours h w i j)"
  by (simp add: neighbours_def)

lemma length_neighbours_pos: "i < h \<Longrightarrow> j < w \<Longrightarrow> 1 \<le> length (neighbours h w i j)"
  using centre_in_neighbours [of i h j w] by (cases "neighbours h w i j") auto

lemma fadd_count: "n < 100 \<Longrightarrow> fadd (of_nat n) 1 = of_nat (Suc n)"
proof -
  assume "n < 100"
  then have "\<bar>int n + 1\<bar> < 2 ^ 24" by simp
  from rn_of_int [OF this] show ?thesis by (simp add: fadd_def add.commute)
qed

lemma blur_body_fold:
  assumes "n + length ds < 100"
  shows "fold (\<lambda>(dx, dy). blur_body h w img i j dx dy) ds (tr, tg, tb, of_nat n) =
    (let ps = map (\<lambda>(dx, dy). (int i + dx, int j + dy))
                (filter (\<lambda>(dx, dy). 0 \<le> int i + dx \<and> int i + dx < int h \<and> 0 \<le> int j + dy \<and> int j + dy < int w) ds)
     in (tr + (\<Sum>(y, x) \<leftarrow> ps. uint (rgbtRed (img ! nat y ! nat x))),
         tg + (\<Sum>(y, x) \<leftarrow> ps. uint (rgbtGreen (img ! nat y ! nat x))),
         tb + (\<Sum>(y, x) \<leftarrow> ps. uint (rgbtBlue (img ! nat y ! nat x))),
         of_nat (n + length ps)))"
  using assms
proof (induction ds arbitrary: tr tg tb n)
  case Nil
  then show ?case by simp
next
  case (Cons d ds)
  obtain dx dy where d: "d = (dx, dy)" by (cases d)
  show ?case
  proof (cases "0 \<le> int i + dx \<and> int i + dx < int h \<and> 0 \<le> int j + dy \<and> int j + dy < int w")
    case True
    have n: "n < 100" "Suc n + length ds < 100" using Cons.prems by simp_all
    have "blur_body h w img i j dx dy (tr, tg, tb, of_nat n) =
          (tr + uint (rgbtRed (img ! nat (int i + dx) ! nat (int j + dy))),
           tg + uint (rgbtGreen (img ! nat (int i + dx) ! nat (int j + dy))),
           tb + uint (rgbtBlue (img ! nat (int i + dx) ! nat (int j + dy))),
           of_nat (Suc n))"
      using True by (simp add: blur_body_def Let_def fadd_count [OF n(1)])
    then show ?thesis
      using True Cons.IH [OF n(2)] by (simp add: d Let_def)
  next
    case False
    have n: "n + length ds < 100" using Cons.prems by simp
    have "blur_body h w img i j dx dy (tr, tg, tb, of_nat n) = (tr, tg, tb, of_nat n)"
      using False by (auto simp add: blur_body_def Let_def)
    then show ?thesis
      using False Cons.IH [OF n] by (simp add: d Let_def)
  qed
qed

text \<open>The loops of \<^verbatim>\<open>blur\<close> accumulate the window totals and the window size.\<close>

lemma blur_sums_eq:
  "blur_sums h w img i j =
    (window_total rgbtRed h w img i j, window_total rgbtGreen h w img i j,
     window_total rgbtBlue h w img i j, of_nat (length (neighbours h w i j)))"
proof -
  have "blur_sums h w img i j =
        fold (\<lambda>(dx, dy). blur_body h w img i j dx dy) (List.product [-1, 0, 1] [-1, 0, 1])
          (0, 0, 0, of_nat 0)"
    unfolding blur_sums_def fold_product by simp
  also have "\<dots> = (window_total rgbtRed h w img i j, window_total rgbtGreen h w img i j,
     window_total rgbtBlue h w img i j, of_nat (length (neighbours h w i j)))"
    by (subst blur_body_fold) (simp_all add: window_total_def neighbours_offsets Let_def)
  finally show ?thesis .
qed

lemma ns_blur_body_fold:
  "fold (\<lambda>(dx, dy). ns_blur_body h w img i j dx dy) ds (tr, tg, tb, c) =
    (let ps = map (\<lambda>(dx, dy). (int i + dx, int j + dy))
                (filter (\<lambda>(dx, dy). 0 \<le> int i + dx \<and> int i + dx < int h \<and> 0 \<le> int j + dy \<and> int j + dy < int w) ds)
     in (tr + (\<Sum>(y, x) \<leftarrow> ps. uint (rgbtRed (img ! nat y ! nat x))),
         tg + (\<Sum>(y, x) \<leftarrow> ps. uint (rgbtGreen (img ! nat y ! nat x))),
         tb + (\<Sum>(y, x) \<leftarrow> ps. uint (rgbtBlue (img ! nat y ! nat x))),
         c + int (length ps)))"
proof (induction ds arbitrary: tr tg tb c)
  case Nil
  then show ?case by simp
next
  case (Cons d ds)
  obtain dx dy where d: "d = (dx, dy)" by (cases d)
  show ?case
  proof (cases "0 \<le> int i + dx \<and> int i + dx < int h \<and> 0 \<le> int j + dy \<and> int j + dy < int w")
    case True
    have "ns_blur_body h w img i j dx dy (tr, tg, tb, c) =
          (tr + uint (rgbtRed (img ! nat (int i + dx) ! nat (int j + dy))),
           tg + uint (rgbtGreen (img ! nat (int i + dx) ! nat (int j + dy))),
           tb + uint (rgbtBlue (img ! nat (int i + dx) ! nat (int j + dy))),
           c + 1)"
      using True by (simp add: ns_blur_body_def inBounds_def Let_def)
    then show ?thesis
      using True Cons.IH by (simp add: d Let_def)
  next
    case False
    have "ns_blur_body h w img i j dx dy (tr, tg, tb, c) = (tr, tg, tb, c)"
      using False by (auto simp add: ns_blur_body_def inBounds_def Let_def)
    then show ?thesis
      using False Cons.IH by (simp add: d Let_def)
  qed
qed

lemma ns_blur_sums_eq:
  "ns_blur_sums h w img i j =
    (window_total rgbtRed h w img i j, window_total rgbtGreen h w img i j,
     window_total rgbtBlue h w img i j, int (length (neighbours h w i j)))"
  unfolding ns_blur_sums_def fold_product
  by (subst ns_blur_body_fold) (simp add: window_total_def neighbours_offsets Let_def)

lemma sum_list_uint_bounds:
  fixes f :: "'a \<Rightarrow> BYTE"
  shows "0 \<le> (\<Sum>x \<leftarrow> xs. uint (f x))" and "(\<Sum>x \<leftarrow> xs. uint (f x)) \<le> 255 * int (length xs)"
proof -
  show "0 \<le> (\<Sum>x \<leftarrow> xs. uint (f x))" by (induction xs) simp_all
  have "uint (f x) \<le> 255" for x using uint_lt2p [of "f x"] by simp
  then show "(\<Sum>x \<leftarrow> xs. uint (f x)) \<le> 255 * int (length xs)"
    by (induction xs) (simp_all add: add_mono algebra_simps)
qed

lemma window_total_bounds:
  "0 \<le> window_total ch h w img i j"
  "window_total ch h w img i j \<le> 255 * int (length (neighbours h w i j))"
  unfolding window_total_def
  using sum_list_uint_bounds [of "\<lambda>p. ch (img ! nat (fst p) ! nat (snd p))" "neighbours h w i j"]
  by (simp_all add: split_def)


text \<open>
  \<^verbatim>\<open>std::round\<close> of a value close enough to a fraction \<open>S / N\<close> is a nearest integer
  of the fraction itself: the fraction is either a half-integer or at least \<open>1 / (2 N)\<close>
  away from one.
\<close>

lemma round_nearest:
  assumes d: "0 \<le> d" and err: "\<bar>d - of_int S / of_int N\<bar> \<le> e" and N: "0 < N"
    and e: "e * (2 * of_int N) < 1"
  shows "\<bar>of_int (cround d) - (of_int S / of_int N :: rat)\<bar> \<le> 1/2"
proof -
  define r where "r = cround d"
  define q :: rat where "q = of_int S / of_int N"
  have N': "(0::rat) < 2 * of_int N" using N by simp
  have r: "of_int r \<le> d + 1/2" "d - 1/2 < of_int r"
    using cround_nonneg [OF d] by (simp_all add: r_def)
  have dq: "d - q \<le> e" "q - d \<le> e" using err by (simp_all add: q_def abs_le_iff)
  have up: "of_int r - q - 1/2 \<le> 0"
  proof -
    have eq: "(of_int r - q - 1/2) * (2 * of_int N) = of_int (2 * N * r - 2 * S - N)"
      using N by (simp add: q_def field_simps)
    have "(of_int r - q - 1/2) * (2 * of_int N) \<le> e * (2 * of_int N)"
      using r dq N' by (intro mult_right_mono) simp_all
    then have "(of_int (2 * N * r - 2 * S - N) :: rat) < of_int 1" using e eq by simp
    then have "2 * N * r - 2 * S - N < 1" by (simp only: of_int_less_iff)
    then have "2 * N * r - 2 * S - N \<le> 0" by simp
    then have "(of_int (2 * N * r - 2 * S - N) :: rat) \<le> of_int 0" by (simp only: of_int_le_iff)
    then have "(of_int r - q - 1/2) * (2 * of_int N) \<le> 0" using eq by simp
    then show ?thesis using N' by (simp add: mult_le_0_iff)
  qed
  have lo: "q - of_int r - 1/2 \<le> 0"
  proof -
    have eq: "(q - of_int r - 1/2) * (2 * of_int N) = of_int (2 * S - 2 * N * r - N)"
      using N by (simp add: q_def field_simps)
    have "(q - of_int r - 1/2) * (2 * of_int N) \<le> e * (2 * of_int N)"
      using r dq N' by (intro mult_right_mono) simp_all
    then have "(of_int (2 * S - 2 * N * r - N) :: rat) < of_int 1" using e eq by simp
    then have "2 * S - 2 * N * r - N < 1" by (simp only: of_int_less_iff)
    then have "2 * S - 2 * N * r - N \<le> 0" by simp
    then have "(of_int (2 * S - 2 * N * r - N) :: rat) \<le> of_int 0" by (simp only: of_int_le_iff)
    then have "(q - of_int r - 1/2) * (2 * of_int N) \<le> 0" using eq by simp
    then show ?thesis using N' by (simp add: mult_le_0_iff)
  qed
  have "\<bar>of_int r - q\<bar> \<le> 1/2" using up lo by linarith
  then show ?thesis by (simp only: r_def q_def)
qed

lemma cround_nonneg_int: "0 \<le> d \<Longrightarrow> 0 \<le> cround d"
  by (simp add: cround_def)

text \<open>The rounded \<^verbatim>\<open>float\<close> quotient of blur is a nearest integer of the exact mean.\<close>

lemma blur_quotient:
  assumes "0 \<le> S" "S \<le> 255 * int N" "1 \<le> N" "N \<le> 9"
  shows "0 \<le> cround (fdiv (int_to_float S) (of_nat N))"
    and "cround (fdiv (int_to_float S) (of_nat N)) \<le> 255"
    and "\<bar>of_int (cround (fdiv (int_to_float S) (of_nat N))) - (of_int S / of_nat N :: rat)\<bar> \<le> 1/2"
proof -
  define q :: rat where "q = of_int S / of_int (int N)"
  define d where "d = rn 24 q"
  have S24: "\<bar>S\<bar> < 2 ^ 24" using assms by simp
  have fd: "fdiv (int_to_float S) (of_nat N) = d"
    by (simp add: fdiv_def int_to_float_def rn_of_int [OF S24] d_def q_def)
  have Npos: "(0::rat) < of_int (int N)" using assms by simp
  have q0: "0 \<le> q" using assms by (simp add: q_def)
  have q255: "q \<le> 255"
  proof -
    have "(of_int S :: rat) \<le> of_int (255 * int N)" using assms by (simp only: of_int_le_iff)
    then show ?thesis using Npos by (simp add: q_def field_simps)
  qed
  have d0: "0 \<le> d" unfolding d_def by (rule rn_nonneg [OF q0])
  have "\<bar>d - q\<bar> \<le> \<bar>q\<bar> / 2 ^ 24" unfolding d_def by (rule rn_rel_err)
  also have "\<dots> \<le> 255 / 2 ^ 24" using q0 q255 by (intro divide_right_mono) simp_all
  finally have err: "\<bar>d - of_int S / of_int (int N)\<bar> \<le> 255 / 2 ^ 24" by (simp add: q_def)
  have "(255 / 2 ^ 24 :: rat) * (2 * of_int (int N)) \<le> 255 / 2 ^ 24 * (2 * 9)"
    using assms by (intro mult_left_mono) simp_all
  also have "\<dots> < 1" by simp
  finally have e: "(255 / 2 ^ 24 :: rat) * (2 * of_int (int N)) < 1" .
  have near: "\<bar>of_int (cround d) - q\<bar> \<le> 1/2"
    unfolding q_def using assms by (intro round_nearest [OF d0 err _ e]) simp
  show "0 \<le> cround (fdiv (int_to_float S) (of_nat N))"
    unfolding fd by (rule cround_nonneg_int [OF d0])
  have "(of_int (cround d) :: rat) \<le> 255 + 1/2" using near q255 by linarith
  then have "(of_int (cround d) :: rat) < of_int 256" by simp
  then have "cround d < 256" by (simp only: of_int_less_iff)
  then show "cround (fdiv (int_to_float S) (of_nat N)) \<le> 255" unfolding fd by simp
  show "\<bar>of_int (cround (fdiv (int_to_float S) (of_nat N))) - (of_int S / of_nat N :: rat)\<bar> \<le> 1/2"
    unfolding fd using near by (simp add: q_def)
qed

lemma blur_channel_props:
  assumes "i < h" "j < w"
  shows "0 \<le> blur_channel ch h w img i j" "blur_channel ch h w img i j \<le> 255"
    "\<bar>of_int (blur_channel ch h w img i j) - window_mean ch h w img i j\<bar> \<le> 1/2"
  unfolding blur_channel_def window_mean_def
  using blur_quotient [OF window_total_bounds length_neighbours_pos [OF assms] length_neighbours_le]
  by blast+

section \<open>Blur, pixel by pixel\<close>


lemma blur_px_eq:
  assumes "i < h" "j < w"
  shows "blur_px h w img i j = Some (blur_result h w img i j)"
proof -
  have n: "(of_nat (length (neighbours h w i j)) :: rat) \<noteq> 0"
    using length_neighbours_pos [OF assms] by auto
  have b: "float_to_BYTE (blur_channel ch h w img i j) = Some (word_of_int (blur_channel ch h w img i j))"
    for ch
    using blur_channel_props(1,2) [OF assms, of ch img] by (simp add: float_to_BYTE_def)
  show ?thesis
    unfolding blur_px_def blur_sums_eq
    using n b [of rgbtRed] b [of rgbtGreen] b [of rgbtBlue]
    by (simp add: blur_channel_def blur_result_def)
qed

lemma clamp_byte: "0 \<le> v \<Longrightarrow> v \<le> 255 \<Longrightarrow> clamp v 0 255 = word_of_int v"
  by (simp add: clamp_def)

lemma ns_blur_px_eq:
  assumes "i < h" "j < w"
  shows "ns_blur_px h w img i j = Some (blur_result h w img i j)"
proof -
  have n: "int (length (neighbours h w i j)) \<noteq> 0"
    using length_neighbours_pos [OF assms] by auto
  have "\<bar>int (length (neighbours h w i j))\<bar> < 2 ^ 24"
    using length_neighbours_le [of h w i j] by simp
  from rn_of_int [OF this]
  have c: "int_to_float (int (length (neighbours h w i j))) = of_nat (length (neighbours h w i j))"
    by (simp add: int_to_float_def)
  have b: "clamp (blur_channel ch h w img i j) 0 255 = word_of_int (blur_channel ch h w img i j)"
    for ch
    using blur_channel_props(1,2) [OF assms, of ch img] by (rule clamp_byte)
  show ?thesis
    unfolding ns_blur_px_def ns_blur_sums_eq
    using n b [of rgbtRed] b [of rgbtGreen] b [of rgbtBlue]
    by (simp add: c blur_channel_def blur_result_def)
qed

text \<open>A loop nest whose body is defined at every index it visits.\<close>

lemma fold_bind_Some:
  assumes "\<And>j s. j < n \<Longrightarrow> f j s = Some (g j s)"
  shows "fold (\<lambda>j so. Option.bind so (f j)) [0..<n] (Some s) = Some (fold g [0..<n] s)"
  using assms by (induction n) simp_all

lemma fold_bind_None: "fold (\<lambda>j so. Option.bind so (f j)) js None = None"
  by (induction js) simp_all

lemma for2_opt_Some:
  assumes "\<And>i j s. i < h \<Longrightarrow> j < w \<Longrightarrow> f i j s = Some (g i j s)"
  shows "for2_opt h w f s = Some (for2 h w g s)"
proof -
  have "fold (\<lambda>i. fold (\<lambda>j so. Option.bind so (f i j)) [0..<w]) [0..<m] (Some s) =
        Some (fold (\<lambda>i. fold (\<lambda>j. g i j) [0..<w]) [0..<m] s)" if "m \<le> h" for m
    using that
  proof (induction m)
    case 0
    then show ?case by simp
  next
    case (Suc m)
    then have "m < h" by simp
    then have "fold (\<lambda>j so. Option.bind so (f m j)) [0..<w] (Some t) = Some (fold (g m) [0..<w] t)" for t
      using assms by (intro fold_bind_Some) simp
    then show ?case using Suc by simp
  qed
  then show ?thesis by (simp add: for2_opt_def for2_def)
qed

text \<open>Both blur variants replace every pixel by \<open>blur_result\<close>, computed from the input image.\<close>

lemma blur_eq:
  assumes "valid_grid h w img"
  shows "blur h w img = Some (map (\<lambda>i. map (\<lambda>j. blur_result h w img i j) [0..<w]) [0..<h])"
proof -
  define out where "out = map (\<lambda>i. map (\<lambda>j. blur_result h w img i j) [0..<w]) [0..<h]"
  have vout: "valid_grid h w out" unfolding out_def by (rule valid_grid_tabulate)
  have copy: "for2 h w (\<lambda>i j copy. put copy i j (img ! i ! j)) (replicate h (replicate w zero_px)) = img"
    by (rule for2_copy [OF valid_grid_replicate assms])
  have "for2_opt h w (\<lambda>i j copy. map_option (put copy i j) (blur_px h w img i j)) img =
        Some (for2 h w (\<lambda>i j copy. put copy i j (blur_result h w img i j)) img)"
    by (rule for2_opt_Some) (simp add: blur_px_eq)
  also have "\<dots> = Some out" unfolding out_def by (simp only: for2_fill [OF assms])
  finally have loop: "for2_opt h w (\<lambda>i j copy. map_option (put copy i j) (blur_px h w img i j)) img = Some out" .
  have wb: "for2 h w (\<lambda>i j img. put img i j (out ! i ! j)) img = out"
    by (rule for2_copy [OF assms vout])
  show ?thesis
    unfolding blur_def Let_def copy loop using wb by (simp add: out_def)
qed

lemma ns_blur_eq:
  assumes "valid_grid h w img"
  shows "ns_blur img = Some (map (\<lambda>i. map (\<lambda>j. blur_result h w img i j) [0..<w]) [0..<h])"
proof (cases "h = 0")
  case True
  then show ?thesis using valid_grid_length [OF assms] by (simp add: ns_blur_def)
next
  case False
  have len: "length img = h" "length (img ! 0) = w"
    using False valid_grid_length [OF assms] valid_grid_nth [OF assms, of 0] by simp_all
  have "for2_opt h w (\<lambda>i j copy. map_option (put copy i j) (ns_blur_px h w img i j)) img =
        Some (for2 h w (\<lambda>i j copy. put copy i j (blur_result h w img i j)) img)"
    by (rule for2_opt_Some) (simp add: ns_blur_px_eq)
  also have "\<dots> = Some (map (\<lambda>i. map (\<lambda>j. blur_result h w img i j) [0..<w]) [0..<h])"
    by (simp only: for2_fill [OF assms])
  finally show ?thesis using False by (simp add: ns_blur_def Let_def len)
qed

lemma blur_nth:
  assumes "valid_grid h w img" "i < h" "j < w"
  shows "\<exists>out. blur h w img = Some out \<and> valid_grid h w out \<and> out ! i ! j = blur_result h w img i j"
  using assms by (simp add: blur_eq valid_grid_tabulate)

section \<open>Totality of blur and agreement of its two variants\<close>


text \<open>
  C10. At every position of a valid grid the window of either blur variant contains the
  centre pixel, so the accumulated count is at least 1, the quotients are defined, and
  both variants return a result.
\<close>

theorem blur_count_positive:
  assumes "valid_grid height width img" "i < height" "j < width"
  shows "(case blur_sums height width img i j of
            (totalRed, totalGreen, totalBlue, pixelCount) \<Rightarrow> 1 \<le> pixelCount) \<and>
         (case ns_blur_sums height width img i j of
            (totalRed, totalGreen, totalBlue, count) \<Rightarrow> 1 \<le> count) \<and>
         blur_px height width img i j \<noteq> None \<and>
         ns_blur_px height width img i j \<noteq> None \<and>
         (\<exists>out. blur height width img = Some out) \<and>
         (\<exists>out. ns_blur img = Some out)"
proof -
  have n: "1 \<le> length (neighbours height width i j)"
    using assms(2,3) by (rule length_neighbours_pos)
  then have "(1::rat) \<le> of_nat (length (neighbours height width i j))"
    by (metis of_nat_1 of_nat_le_iff)
  moreover have "1 \<le> int (length (neighbours height width i j))" using n by simp
  ultimately show ?thesis
    using assms by (simp add: blur_sums_eq ns_blur_sums_eq blur_px_eq ns_blur_px_eq blur_eq ns_blur_eq)
qed

theorem blur_count_positive_witness:
  "valid_grid 1 1 [[rgb 10 20 30]] \<and> (0::nat) < 1 \<and>
   (case blur_sums 1 1 [[rgb 10 20 30]] 0 0 of
      (totalRed, totalGreen, totalBlue, pixelCount) \<Rightarrow> 1 \<le> pixelCount) \<and>
   (case ns_blur_sums 1 1 [[rgb 10 20 30]] 0 0 of
      (totalRed, totalGreen, totalBlue, count) \<Rightarrow> 1 \<le> count) \<and>
   blur_px 1 1 [[rgb 10 20 30]] 0 0 \<noteq> None \<and>
   ns_blur_px 1 1 [[rgb 10 20 30]] 0 0 \<noteq> None \<and>
   (\<exists>out. blur 1 1 [[rgb 10 20 30]] = Some out) \<and>
   (\<exists>out. ns_blur [[rgb 10 20 30]] = Some out)"
proof -
  have v: "valid_grid 1 1 [[rgb 10 20 30]]" by (simp add: valid_grid_def)
  show ?thesis
    using v blur_count_positive [OF v, of 0 0] by simp
qed

text \<open>
  C4 (as amended). The two blur variants take different casting paths (a \<^verbatim>\<open>float\<close>
  counter and a direct conversion to \<^verbatim>\<open>BYTE\<close>, against an \<^verbatim>\<open>int\<close> counter converted to
  \<^verbatim>\<open>float\<close> and \<^verbatim>\<open>clamp\<close>), but both divide in \<^verbatim>\<open>float\<close> and round with \<^verbatim>\<open>std::round\<close>:
  on every valid grid they return the same image.
\<close>

theorem blur_variants_agree:
  assumes "valid_grid height width img"
  shows "blur height width img = ns_blur img"
  using assms by (simp add: blur_eq ns_blur_eq)

theorem blur_variants_agree_witness:
  "valid_grid 1 2 [[rgb 1 0 0, rgb 2 0 5]] \<and>
   blur 1 2 [[rgb 1 0 0, rgb 2 0 5]] = ns_blur [[rgb 1 0 0, rgb 2 0 5]]"
proof -
  have v: "valid_grid 1 2 [[rgb 1 0 0, rgb 2 0 5]]" by (simp add: valid_grid_def)
  show ?thesis using v blur_variants_agree [OF v] by simp
qed

text \<open>
  The claim that the outputs of the two variants differ on some grid is false: there is
  no valid grid on which they differ. On the grid \<open>[(1,0,0), (2,0,5)]\<close>, whose means
  \<open>1.5\<close> and \<open>2.5\<close> are ties, both give \<open>(2,0,3)\<close> for both pixels.
\<close>

theorem blur_variants_differ_counterexample:
  "blur 1 2 [[rgb 1 0 0, rgb 2 0 5]] = Some [[rgb 2 0 3, rgb 2 0 3]] \<and>
   ns_blur [[rgb 1 0 0, rgb 2 0 5]] = Some [[rgb 2 0 3, rgb 2 0 3]] \<and>
   \<not> (\<exists>height width img. valid_grid height width img \<and> blur height width img \<noteq> ns_blur img)"
proof -
  have "blur 1 2 [[rgb 1 0 0, rgb 2 0 5]] = Some [[rgb 2 0 3, rgb 2 0 3]]" by code_simp
  moreover have "ns_blur [[rgb 1 0 0, rgb 2 0 5]] = Some [[rgb 2 0 3, rgb 2 0 3]]" by code_simp
  moreover have "\<not> (\<exists>height width img. valid_grid height width img \<and> blur height width img \<noteq> ns_blur img)"
    by (simp add: blur_eq ns_blur_eq)
  ultimately show ?thesis by simp
qed

section \<open>Blur is the rounded window mean\<close>


lemma length_filter_product:
  "length (filter (\<lambda>(y, x). P y \<and> Q x) (List.product ys xs)) =
   length (filter P ys) * length (filter Q xs)"
  by (induction ys) (simp_all add: filter_map comp_def)

lemma side_count:
  assumes "i < n" "2 \<le> n"
  shows "length (filter (\<lambda>y. 0 \<le> y \<and> y < int n) [int i - 1, int i, int i + 1]) =
         (if i = 0 \<or> i + 1 = n then 2 else 3)"
  using assms by auto

text \<open>The window size is the number of in-bounds rows times the number of in-bounds columns.\<close>

lemma length_neighbours:
  "length (neighbours h w i j) =
   length (filter (\<lambda>y. 0 \<le> y \<and> y < int h) [int i - 1, int i, int i + 1]) *
   length (filter (\<lambda>x. 0 \<le> x \<and> x < int w) [int j - 1, int j, int j + 1])"
proof -
  have "neighbours h w i j =
        filter (\<lambda>(y, x). (0 \<le> y \<and> y < int h) \<and> (0 \<le> x \<and> x < int w))
          (List.product [int i - 1, int i, int i + 1] [int j - 1, int j, int j + 1])"
    unfolding neighbours_def by (simp only: conj_assoc)
  then show ?thesis by (simp only: length_filter_product)
qed

lemma window_size:
  assumes "i < h" "j < w" "2 \<le> h" "2 \<le> w"
  shows "length (neighbours h w i j) =
         (if (i = 0 \<or> i + 1 = h) \<and> (j = 0 \<or> j + 1 = w) then 4
          else if (i = 0 \<or> i + 1 = h) \<or> (j = 0 \<or> j + 1 = w) then 6 else 9)"
  unfolding length_neighbours side_count [OF assms(1,3)] side_count [OF assms(2,4)]
  by simp

lemma uint_blur_result:
  assumes "i < h" "j < w"
  shows "uint (rgbtRed (blur_result h w img i j)) = blur_channel rgbtRed h w img i j"
    "uint (rgbtGreen (blur_result h w img i j)) = blur_channel rgbtGreen h w img i j"
    "uint (rgbtBlue (blur_result h w img i j)) = blur_channel rgbtBlue h w img i j"
  using blur_channel_props(1,2) [OF assms, of rgbtRed img]
    blur_channel_props(1,2) [OF assms, of rgbtGreen img]
    blur_channel_props(1,2) [OF assms, of rgbtBlue img]
  by (simp_all add: blur_result_def uint_word_of_int_byte)

text \<open>
  C1 (as amended). Blur replaces every pixel of a valid grid, channel by channel, by a
  nearest integer of the exact arithmetic mean over the pixel and its in-bounds
  neighbours of the 3x3 window, all read from the input image; positions outside the
  image enter neither the sum nor the count. The result is a \<^verbatim>\<open>BYTE\<close>, so it lies in
  \<open>[0, 255]\<close>. In a grid at least two pixels high and two wide the window of a corner
  has 4 samples, that of another border pixel 6, and that of an interior pixel 9.
\<close>

theorem blur_window_mean:
  assumes "valid_grid height width img" "i < height" "j < width"
  shows "\<exists>out. blur height width img = Some out \<and>
           \<bar>of_int (uint (rgbtRed (out ! i ! j))) - window_mean rgbtRed height width img i j\<bar> \<le> 1/2 \<and>
           \<bar>of_int (uint (rgbtGreen (out ! i ! j))) - window_mean rgbtGreen height width img i j\<bar> \<le> 1/2 \<and>
           \<bar>of_int (uint (rgbtBlue (out ! i ! j))) - window_mean rgbtBlue height width img i j\<bar> \<le> 1/2 \<and>
           (2 \<le> height \<and> 2 \<le> width \<longrightarrow>
              length (neighbours height width i j) =
                (if (i = 0 \<or> i + 1 = height) \<and> (j = 0 \<or> j + 1 = width) then 4
                 else if (i = 0 \<or> i + 1 = height) \<or> (j = 0 \<or> j + 1 = width) then 6 else 9))"
proof -
  obtain out where out: "blur height width img = Some out"
    "out ! i ! j = blur_result height width img i j"
    using blur_nth [OF assms] by blast
  have "\<bar>of_int (uint (ch (out ! i ! j))) - window_mean ch height width img i j\<bar> \<le> 1/2"
    if "uint (ch (blur_result height width img i j)) = blur_channel ch height width img i j" for ch
    using that blur_channel_props(3) [OF assms(2,3), of ch img] by (simp add: out(2))
  then show ?thesis
    using out(1) uint_blur_result [OF assms(2,3)] window_size [OF assms(2,3)] by simp
qed

theorem blur_window_mean_witness:
  "valid_grid 2 2 [[rgb 1 0 0, rgb 2 0 5], [rgb 10 20 30, rgb 255 255 255]] \<and> (0::nat) < 2 \<and>
   (\<exists>out. blur 2 2 [[rgb 1 0 0, rgb 2 0 5], [rgb 10 20 30, rgb 255 255 255]] = Some out \<and>
      \<bar>of_int (uint (rgbtRed (out ! 0 ! 0))) -
         window_mean rgbtRed 2 2 [[rgb 1 0 0, rgb 2 0 5], [rgb 10 20 30, rgb 255 255 255]] 0 0\<bar> \<le> 1/2) \<and>
   window_mean rgbtRed 2 2 [[rgb 1 0 0, rgb 2 0 5], [rgb 10 20 30, rgb 255 255 255]] 0 0 = 67 \<and>
   length (neighbours 2 2 0 0) = 4"
proof -
  have v: "valid_grid 2 2 [[rgb 1 0 0, rgb 2 0 5], [rgb 10 20 30, rgb 255 255 255]]"
    by (simp add: valid_grid_def)
  have m: "window_mean rgbtRed 2 2 [[rgb 1 0 0, rgb 2 0 5], [rgb 10 20 30, rgb 255 255 255]] 0 0 = 67"
    by (simp add: window_mean_def window_total_def neighbours_def rgb_def)
  show ?thesis
    using v m blur_window_mean [OF v, of 0 0] by auto
qed

text \<open>
  The claim as stated fails on thin grids: the only pixel of a 1x1 grid is a corner, and
  its window holds one sample, not four; the corners of a 1x3 grid average two samples.
\<close>

theorem blur_corner_counterexample:
  "valid_grid 1 1 [[rgb 10 20 30]] \<and> length (neighbours 1 1 0 0) = 1 \<and>
   length (neighbours 1 3 0 0) = 2 \<and> length (neighbours 1 3 0 1) = 3 \<and>
   blur_sums 1 1 [[rgb 10 20 30]] 0 0 = (10, 20, 30, 1)"
  by (simp add: valid_grid_def neighbours_def blur_sums_eq window_total_def rgb_def)

section \<open>Blur on uniform images\<close>


lemma neighbours_in_bounds:
  assumes "(y, x) \<in> set (neighbours h w i j)"
  shows "nat y < h \<and> nat x < w"
proof -
  from assms have "(y, x) \<in> {p \<in> set (List.product [int i - 1, int i, int i + 1]
      [int j - 1, int j, int j + 1]). case p of (y, x) \<Rightarrow> 0 \<le> y \<and> y < int h \<and> 0 \<le> x \<and> x < int w}"
    unfolding neighbours_def set_filter .
  then have "0 \<le> y \<and> y < int h \<and> 0 \<le> x \<and> x < int w" by blast
  then show ?thesis by linarith
qed

lemma uniform_nth:
  assumes "valid_grid h w img" "uniform c img" "i < h" "j < w"
  shows "img ! i ! j = c"
proof -
  have "img ! i \<in> set img" using assms(1,3) by (simp add: valid_grid_def)
  moreover have "img ! i ! j \<in> set (img ! i)" using valid_grid_nth [OF assms(1,3)] assms(4) by simp
  ultimately show ?thesis using assms(2) by (auto simp: uniform_def)
qed

lemma sum_list_const: "(\<And>x. x \<in> set xs \<Longrightarrow> f x = (k::int)) \<Longrightarrow> (\<Sum>x \<leftarrow> xs. f x) = k * int (length xs)"
  by (induction xs) (simp_all add: algebra_simps)

lemma window_total_uniform:
  assumes "valid_grid h w img" "uniform c img"
  shows "window_total ch h w img i j = uint (ch c) * int (length (neighbours h w i j))"
  unfolding window_total_def
proof (rule sum_list_const)
  fix p assume p: "p \<in> set (neighbours h w i j)"
  obtain y x where yx: "p = (y, x)" by (cases p)
  have "img ! nat y ! nat x = c"
    using neighbours_in_bounds [of y x h w i j] p uniform_nth [OF assms] by (simp add: yx)
  then show "(case p of (y, x) \<Rightarrow> uint (ch (img ! nat y ! nat x))) = uint (ch c)"
    by (simp add: yx)
qed

lemma blur_channel_uniform:
  assumes "valid_grid h w img" "uniform c img" "i < h" "j < w"
  shows "blur_channel ch h w img i j = uint (ch c)"
proof -
  define N where "N = length (neighbours h w i j)"
  have N: "1 \<le> N" "N \<le> 9"
    unfolding N_def using length_neighbours_pos [OF assms(3,4)] length_neighbours_le by simp_all
  have u: "0 \<le> uint (ch c)" "uint (ch c) < 256" using uint_lt2p [of "ch c"] by simp_all
  have "uint (ch c) * int N \<le> 255 * 9" using u N by (intro mult_mono) simp_all
  then have t24: "\<bar>uint (ch c) * int N\<bar> < 2 ^ 24" using u N by simp
  have u24: "\<bar>uint (ch c)\<bar> < 2 ^ 24" using u by simp
  have a: "int_to_float (uint (ch c) * int N) = of_int (uint (ch c) * int N)"
    unfolding int_to_float_def by (rule rn_of_int [OF t24])
  have b: "(of_int (uint (ch c) * int N) :: rat) / of_nat N = of_int (uint (ch c))"
    using N by simp
  have "fdiv (int_to_float (uint (ch c) * int N)) (of_nat N) = rn 24 (of_int (uint (ch c)))"
    unfolding fdiv_def a b ..
  also have "\<dots> = of_int (uint (ch c))" by (rule rn_of_int [OF u24])
  finally have "cround (fdiv (int_to_float (uint (ch c) * int N)) (of_nat N)) = uint (ch c)"
    by (simp only: cround_of_int)
  then show ?thesis
    unfolding blur_channel_def window_total_uniform [OF assms(1,2)] N_def .
qed

lemma blur_result_uniform:
  assumes "valid_grid h w img" "uniform c img" "i < h" "j < w"
  shows "blur_result h w img i j = img ! i ! j"
  by (simp add: blur_result_def blur_channel_uniform [OF assms] uniform_nth [OF assms])

lemma blur_uniform:
  assumes "valid_grid h w img" "uniform c img"
  shows "blur h w img = Some img"
proof -
  have "map (\<lambda>i. map (\<lambda>j. blur_result h w img i j) [0..<w]) [0..<h] =
        map (\<lambda>i. map (\<lambda>j. img ! i ! j) [0..<w]) [0..<h]"
    by (intro map_cong refl) (simp_all add: blur_result_uniform [OF assms])
  then show ?thesis by (simp add: blur_eq [OF assms(1)] map_nth_grid [OF assms(1)])
qed

lemma uniform_1x1:
  assumes "valid_grid 1 1 img"
  shows "uniform (img ! 0 ! 0) img"
proof -
  from assms obtain row where "img = [row]" "length row = 1"
    by (cases img) (auto simp: valid_grid_def)
  then obtain p where "img = [[p]]" by (cases row) auto
  then show ?thesis by (simp add: uniform_def)
qed

text \<open>
  C8. Blur leaves a uniform-colour valid grid unchanged, and so every 1x1 grid: the
  window total is the colour times the window size, the \<^verbatim>\<open>float\<close> quotient is exact,
  and rounding an integer changes nothing.
\<close>

theorem blur_uniform_identity:
  assumes "valid_grid height width img" "uniform c img \<or> (height = 1 \<and> width = 1)"
  shows "blur height width img = Some img"
proof -
  from assms(2) consider "uniform c img" | "height = 1" "width = 1" by blast
  then show ?thesis
  proof cases
    case 1
    then show ?thesis by (rule blur_uniform [OF assms(1)])
  next
    case 2
    then have "uniform (img ! 0 ! 0) img" using assms(1) by (simp add: uniform_1x1)
    then show ?thesis by (rule blur_uniform [OF assms(1)])
  qed
qed

theorem blur_uniform_identity_witness:
  "valid_grid 2 3 [[rgb 10 20 30, rgb 10 20 30, rgb 10 20 30], [rgb 10 20 30, rgb 10 20 30, rgb 10 20 30]] \<and>
   uniform (rgb 10 20 30) [[rgb 10 20 30, rgb 10 20 30, rgb 10 20 30], [rgb 10 20 30, rgb 10 20 30, rgb 10 20 30]] \<and>
   blur 2 3 [[rgb 10 20 30, rgb 10 20 30, rgb 10 20 30], [rgb 10 20 30, rgb 10 20 30, rgb 10 20 30]] =
     Some [[rgb 10 20 30, rgb 10 20 30, rgb 10 20 30], [rgb 10 20 30, rgb 10 20 30, rgb 10 20 30]] \<and>
   valid_grid 1 1 [[rgb 10 20 30]] \<and> blur 1 1 [[rgb 10 20 30]] = Some [[rgb 10 20 30]]"
proof -
  have v: "valid_grid 2 3 [[rgb 10 20 30, rgb 10 20 30, rgb 10 20 30], [rgb 10 20 30, rgb 10 20 30, rgb 10 20 30]]"
    by (simp add: valid_grid_def)
  have u: "uniform (rgb 10 20 30) [[rgb 10 20 30, rgb 10 20 30, rgb 10 20 30], [rgb 10 20 30, rgb 10 20 30, rgb 10 20 30]]"
    by (simp add: uniform_def)
  have v1: "valid_grid 1 1 [[rgb 10 20 30]]" by (simp add: valid_grid_def)
  show ?thesis
    using v u v1 blur_uniform_identity [OF v, of "rgb 10 20 30"]
      blur_uniform_identity [OF v1, of "rgb 0 0 0"]
    by simp
qed

section \<open>The square root of the gradient magnitude\<close>


lemma isqrt_spec:
  "0 \<le> n \<Longrightarrow> 0 \<le> isqrt n \<and> isqrt n * isqrt n \<le> n \<and> n < (isqrt n + 1) * (isqrt n + 1)"
proof (induction n rule: isqrt.induct)
  case (1 n)
  show ?case
  proof (cases "n \<le> 0")
    case True
    then have "n = 0" using "1.prems" by simp
    then show ?thesis by (simp add: isqrt.simps)
  next
    case False
    define q where "q = isqrt (n div 4)"
    define r where "r = 2 * q"
    have "0 \<le> n div 4" using False by simp
    from "1.IH" [OF False this]
    have q: "0 \<le> q" "q * q \<le> n div 4" "n div 4 < (q + 1) * (q + 1)"
      by (simp_all add: q_def)
    have d: "4 * (n div 4) \<le> n" "n < 4 * (n div 4) + 4" by presburger+
    have r0: "0 \<le> r" using q by (simp add: r_def)
    have r1: "r * r \<le> n" using q(2) d(1) by (simp add: r_def)
    define Q where "Q = (q + 1) * (q + 1)"
    define R where "R = (r + 2) * (r + 2)"
    have "R = 4 * Q" by (simp add: R_def Q_def r_def algebra_simps)
    moreover have "n div 4 + 1 \<le> Q" using q(3) by (simp add: Q_def)
    ultimately have "n < R" using d(2) by linarith
    then have r2: "n < (r + 1 + 1) * (r + 1 + 1)" by (simp add: R_def algebra_simps)
    have i: "isqrt n = (if (r + 1) * (r + 1) \<le> n then r + 1 else r)"
      by (subst isqrt.simps) (simp add: False Let_def q_def r_def)
    show ?thesis
    proof (cases "(r + 1) * (r + 1) \<le> n")
      case True
      then show ?thesis using r0 r2 by (simp add: i algebra_simps)
    next
      case False
      then show ?thesis using r0 r1 by (simp add: i)
    qed
  qed
qed


text \<open>
  The result of \<open>fsqrt\<close> is an integer multiple \<open>w * u\<close> of the unit in the last place, and
  the argument lies between the squares of \<open>(w - 1/2) * u\<close> and \<open>(w + 1/2) * u\<close>: the
  result is a floating-point number nearest to the square root.
\<close>

lemma fsqrt_bracket:
  fixes x :: rat and p :: nat
  assumes "0 < x" "1 \<le> p"
  defines "u \<equiv> 2 powi (expo x div 2 - int p + 1)"
  shows "\<exists>w::int. fsqrt p x = of_int w * u \<and> 1 \<le> w \<and>
           (of_int w - 1/2) * (of_int w - 1/2) * (u * u) \<le> x \<and>
           x \<le> (of_int w + 1/2) * (of_int w + 1/2) * (u * u)"
proof -
  define t where "t = x / (u * u)"
  define m where "m = isqrt \<lfloor>t\<rfloor>"
  define h :: rat where "h = of_int (m * m + m) + 1/4"
  define w where "w = (if t < h then m else if h < t then m + 1 else if even m then m else m + 1)"
  have upos: "0 < u" by (simp add: u_def)
  have uu: "0 < u * u" using upos by simp
  have x: "x = t * (u * u)" using upos by (simp add: t_def)
  have f: "fsqrt p x = of_int w * u"
    using assms(1) unfolding fsqrt_def Let_def w_def h_def m_def t_def u_def by simp
  have t1: "1 \<le> t"
  proof -
    define k where "k = expo x div 2 - int p + 1"
    have "k + k \<le> expo x" using assms(2) unfolding k_def by presburger
    have uk: "u = 2 powi k" by (simp add: u_def k_def)
    have "u * u = 2 powi (k + k)" unfolding uk by (subst power_int_add) simp_all
    also have "\<dots> \<le> 2 powi (expo x)" by (rule powi2_mono) fact
    also have "\<dots> \<le> x" using expo_bounds(1) [of x] assms(1) by simp
    finally show ?thesis using uu by (simp add: t_def)
  qed
  then have ft: "1 \<le> \<lfloor>t\<rfloor>" by simp
  then have "0 \<le> \<lfloor>t\<rfloor>" by simp
  from isqrt_spec [OF this]
  have m: "0 \<le> m" "m * m \<le> \<lfloor>t\<rfloor>" "\<lfloor>t\<rfloor> < (m + 1) * (m + 1)" by (simp_all add: m_def)
  have m1: "1 \<le> m"
  proof (rule ccontr)
    assume "\<not> 1 \<le> m"
    then have "m = 0" using m(1) by simp
    then show False using m(3) ft by simp
  qed
  have lo: "of_int (m * m) \<le> t"
  proof -
    have "(of_int (m * m) :: rat) \<le> of_int \<lfloor>t\<rfloor>" using m(2) by (simp only: of_int_le_iff)
    also have "\<dots> \<le> t" by simp
    finally show ?thesis .
  qed
  have hi: "t < of_int ((m + 1) * (m + 1))"
  proof -
    have "\<lfloor>t\<rfloor> + 1 \<le> (m + 1) * (m + 1)" using m(3) by simp
    then have "(of_int (\<lfloor>t\<rfloor> + 1) :: rat) \<le> of_int ((m + 1) * (m + 1))" by (simp only: of_int_le_iff)
    moreover have "t < of_int (\<lfloor>t\<rfloor> + 1)" by simp linarith
    ultimately show ?thesis by linarith
  qed
  have mm: "(of_int m :: rat) * of_int m = of_int (m * m)" by simp
  have m1r: "(1::rat) \<le> of_int m" using m1 by simp
  have sq_lo: "(of_int m - 1/2) * (of_int m - 1/2) \<le> (of_int (m * m) :: rat)"
    using m1r by (simp add: algebra_simps)
  have sq_mid: "((of_int m :: rat) + 1/2) * (of_int m + 1/2) = h"
    by (simp add: h_def algebra_simps)
  have sq_hi: "(of_int ((m + 1) * (m + 1)) :: rat) \<le> (of_int (m + 1) + 1/2) * (of_int (m + 1) + 1/2)"
    using m1r by (simp add: algebra_simps)
  have w1: "1 \<le> w" using m1 by (simp add: w_def)
  have br: "(of_int w - 1/2) * (of_int w - 1/2) \<le> t \<and> t \<le> (of_int w + 1/2) * (of_int w + 1/2)"
  proof (cases "w = m")
    case True
    then have "\<not> h < t" using m1 by (auto simp: w_def split: if_splits)
    then have "t \<le> (of_int m + 1/2) * (of_int m + 1/2)" unfolding sq_mid by simp
    moreover have "(of_int m - 1/2) * (of_int m - 1/2) \<le> t" using sq_lo lo by (rule order_trans)
    ultimately show ?thesis unfolding True by simp
  next
    case False
    then have wm: "w = m + 1" and "\<not> t < h" by (auto simp: w_def split: if_splits)
    have e1: "(of_int w - 1/2 :: rat) = of_int m + 1/2" by (simp add: wm)
    have "(of_int w - 1/2) * (of_int w - 1/2) = h" unfolding e1 by (rule sq_mid)
    then have a: "(of_int w - 1/2) * (of_int w - 1/2) \<le> t" using \<open>\<not> t < h\<close> by simp
    define B :: rat where "B = (of_int (m + 1) + 1/2) * (of_int (m + 1) + 1/2)"
    have "t \<le> B" using hi sq_hi unfolding B_def by (rule order.strict_implies_order [OF less_le_trans])
    then have "t \<le> (of_int w + 1/2) * (of_int w + 1/2)" unfolding B_def wm .
    then show ?thesis using a by simp
  qed
  have "(of_int w - 1/2) * (of_int w - 1/2) * (u * u) \<le> t * (u * u)"
    using br uu by (intro mult_right_mono) simp_all
  moreover have "t * (u * u) \<le> (of_int w + 1/2) * (of_int w + 1/2) * (u * u)"
    using br uu by (intro mult_right_mono) simp_all
  ultimately show ?thesis using f w1 x by auto
qed


text \<open>
  Rounding to an integer a value \<open>v\<close> that lies within \<open>\<delta>\<close> of the square root of an
  integer \<open>N\<close>: the square root of an integer is never a half-integer and is at least
  \<open>1 / (8 * sqrt N)\<close> away from one, so a small \<open>\<delta>\<close> does not change the result.
\<close>

lemma sqrt_round_rat:
  fixes v d :: rat and N r :: int
  assumes v0: "d \<le> v" and d0: "0 < d" and d1: "d \<le> 1 / 2 ^ 43"
    and A: "(v - d) * (v - d) \<le> of_int N" and B: "of_int N \<le> (v + d) * (v + d)"
    and N: "1 \<le> N" "N < 2 ^ 22"
    and r: "of_int r \<le> v + 1/2" "v - 1/2 < of_int r"
  shows "1 \<le> r \<and> r * r - r < N \<and> N \<le> r * r + r"
proof -
  have small: "(1 / 2 ^ 43 :: rat) * 4100 < 1/4" by simp
  have vb: "v - d < 2048"
  proof (rule ccontr)
    assume "\<not> v - d < 2048"
    then have "2048 \<le> v - d" by simp
    then have "2048 * 2048 \<le> (v - d) * (v - d)" by (intro mult_mono) simp_all
    then have "(2048 * 2048 :: rat) \<le> of_int N" using A by linarith
    moreover have "(of_int N :: rat) < of_int (2 ^ 22)" using N(2) by (simp only: of_int_less_iff)
    ultimately show False by simp
  qed
  have "(of_int (- 1) :: rat) < of_int r" using r(2) v0 d0 by simp
  then have "- 1 < r" by (simp only: of_int_less_iff)
  then have r0: "0 \<le> r" by simp
  then have r0': "(0::rat) \<le> of_int r" by simp
  have rb: "(of_int r :: rat) \<le> 2049" using r(1) vb d1 by simp
  define c :: rat where "c = of_int r + 1/2"
  have dle: "d \<le> 1"
  proof -
    have "(1 / 2 ^ 43 :: rat) \<le> 1" by simp
    with d1 show ?thesis by (rule order_trans)
  qed
  have c: "0 \<le> c" "c \<le> 4099 / 2" using r0' rb by (simp_all add: c_def)
  have up: "N \<le> r * r + r"
  proof -
    have "(v + d) * (v + d) < (c + d) * (c + d)"
      using r(2) v0 d0 c by (intro mult_strict_mono) (simp_all add: c_def)
    moreover have "(c + d) * (c + d) = c * c + d * (2 * c + d)" by (simp add: algebra_simps)
    moreover have "d * (2 * c + d) \<le> (1 / 2 ^ 43) * 4100"
    proof (intro mult_mono)
      show "d \<le> 1 / 2 ^ 43" by (rule d1)
      show "2 * c + d \<le> 4100" using c dle by linarith
      show "(0::rat) \<le> 1 / 2 ^ 43" by simp
      show "0 \<le> 2 * c + d" using c d0 by linarith
    qed
    moreover have "c * c = of_int (r * r + r) + 1/4" by (simp add: c_def algebra_simps)
    ultimately have "(of_int N :: rat) < of_int (r * r + r) + 1" using B small by linarith
    then have "(of_int N :: rat) < of_int (r * r + r + 1)" by simp
    then have "N < r * r + r + 1" by (simp only: of_int_less_iff)
    then show ?thesis by simp
  qed
  have r1: "1 \<le> r"
  proof (rule ccontr)
    assume "\<not> 1 \<le> r"
    then have "r = 0" using r0 by simp
    then show False using up N(1) by simp
  qed
  then have r1': "(1::rat) \<le> of_int r" by simp
  define c' :: rat where "c' = of_int r - 1/2"
  have c': "1/2 \<le> c'" "c' \<le> 2050" "c' \<le> v" using r1' rb r(1) by (simp_all add: c'_def)
  have lo: "r * r - r < N"
  proof -
    have dc: "0 \<le> c' - d" using c'(1) d1 by simp
    have "(c' - d) * (c' - d) \<le> (v - d) * (v - d)"
      using dc c'(3) by (intro mult_mono) simp_all
    moreover have "(c' - d) * (c' - d) = c' * c' - d * (2 * c' - d)" by (simp add: algebra_simps)
    moreover have "d * (2 * c' - d) \<le> (1 / 2 ^ 43) * 4100"
    proof (intro mult_mono)
      show "d \<le> 1 / 2 ^ 43" by (rule d1)
      show "2 * c' - d \<le> 4100" using c' d0 by linarith
      show "(0::rat) \<le> 1 / 2 ^ 43" by simp
      show "0 \<le> 2 * c' - d" using c' dc by linarith
    qed
    moreover have "c' * c' = of_int (r * r - r) + 1/4" by (simp add: c'_def algebra_simps)
    ultimately have "(of_int (r * r - r) :: rat) < of_int N" using A small by linarith
    then show ?thesis by (simp only: of_int_less_iff)
  qed
  show ?thesis using r1 lo up by simp
qed

lemma dpow2_exact:
  assumes "\<bar>g\<bar> \<le> 1020"
  shows "dpow2 g = of_int (g * g)"
proof -
  have g: "\<bar>g\<bar> < 2 ^ 53" using assms by simp
  have "\<bar>g * g\<bar> = \<bar>g\<bar> * \<bar>g\<bar>" by (simp add: abs_mult)
  also have "\<dots> \<le> 1020 * 1020" using assms by (intro mult_mono) simp_all
  finally have gg: "\<bar>g * g\<bar> < 2 ^ 53" by simp
  have "dpow2 g = rn 53 (of_int (g * g))"
    by (simp add: dpow2_def int_to_double_def rn_of_int [OF g])
  then show ?thesis by (simp only: rn_of_int [OF gg])
qed

lemma sum_squares_bound:
  assumes "\<bar>gx\<bar> \<le> 1020" "\<bar>gy\<bar> \<le> (1020::int)"
  shows "0 \<le> gx * gx + gy * gy" "gx * gx + gy * gy < 2 ^ 22"
proof -
  show "0 \<le> gx * gx + gy * gy" by simp
  have "gx * gx = \<bar>gx\<bar> * \<bar>gx\<bar>" "gy * gy = \<bar>gy\<bar> * \<bar>gy\<bar>" by (simp_all add: abs_mult_self_eq)
  moreover have "\<bar>gx\<bar> * \<bar>gx\<bar> \<le> 1020 * 1020" using assms by (intro mult_mono) simp_all
  moreover have "\<bar>gy\<bar> * \<bar>gy\<bar> \<le> 1020 * 1020" using assms by (intro mult_mono) simp_all
  ultimately show "gx * gx + gy * gy < 2 ^ 22" by simp
qed

text \<open>The \<^verbatim>\<open>double\<close> computation of the magnitude is \<open>round (sqrt N)\<close> of the exact reals.\<close>

lemma cround_dsqrt:
  assumes "0 \<le> N" "N < 2 ^ 22"
  shows "cround (dsqrt (of_int N)) = round (sqrt (real_of_int N))"
proof (cases "N = 0")
  case True
  have "cround 0 = 0" using cround_of_int [of 0] by simp
  then show ?thesis using True by (simp add: dsqrt_def fsqrt_def)
next
  case False
  then have N1: "1 \<le> N" using assms by simp
  define x :: rat where "x = of_int N"
  define u :: rat where "u = 2 powi (expo x div 2 - int 53 + 1)"
  have xpos: "0 < x" using N1 by (simp add: x_def)
  obtain w :: int where w: "fsqrt 53 x = of_int w * u" "1 \<le> w"
    "(of_int w - 1/2) * (of_int w - 1/2) * (u * u) \<le> x"
    "x \<le> (of_int w + 1/2) * (of_int w + 1/2) * (u * u)"
    using fsqrt_bracket [OF xpos, of 53] unfolding u_def by auto
  define v where "v = of_int w * u"
  define d where "d = u / 2"
  have upos: "0 < u" by (simp add: u_def)
  have "2 powi (expo x) \<le> \<bar>x\<bar>" using expo_bounds(1) [of x] xpos by simp
  also have "\<bar>x\<bar> < of_int (2 ^ 22)" using assms(2) xpos unfolding x_def by (simp only: abs_of_pos of_int_less_iff)
  also have "(of_int (2 ^ 22) :: rat) = 2 powi 22" by simp
  finally have "expo x < 22" by (rule powi2_less_cancel)
  then have "expo x div 2 - int 53 + 1 \<le> - 42" by simp
  then have "u \<le> 2 powi (- 42)" unfolding u_def by (rule powi2_mono)
  then have u42: "u \<le> 1 / 2 ^ 42" by (simp add: power_int_minus_divide)
  have d0: "0 < d" using upos by (simp add: d_def)
  have d1: "d \<le> 1 / 2 ^ 43" using u42 by (simp add: d_def)
  have w1: "(1::rat) \<le> of_int w" using w(2) by simp
  have "1 * u \<le> of_int w * u" using w1 upos by (intro mult_right_mono) simp_all
  then have vu: "u \<le> v" by (simp add: v_def)
  then have dv: "d \<le> v" using upos by (simp add: d_def)
  have v0: "0 \<le> v" using dv d0 by simp
  have A: "(v - d) * (v - d) \<le> of_int N"
  proof -
    have "(v - d) * (v - d) = (of_int w - 1/2) * (of_int w - 1/2) * (u * u)"
      by (simp add: v_def d_def algebra_simps)
    then show ?thesis using w(3) by (simp add: x_def)
  qed
  have B: "of_int N \<le> (v + d) * (v + d)"
  proof -
    have "(v + d) * (v + d) = (of_int w + 1/2) * (of_int w + 1/2) * (u * u)"
      by (simp add: v_def d_def algebra_simps)
    then show ?thesis using w(4) by (simp add: x_def)
  qed
  define r where "r = cround v"
  have r: "of_int r \<le> v + 1/2" "v - 1/2 < of_int r"
    using cround_nonneg [OF v0] by (simp_all add: r_def)
  from sqrt_round_rat [OF dv d0 d1 A B N1 assms(2) r]
  have R: "1 \<le> r" "r * r - r < N" "N \<le> r * r + r" by simp_all
  have "round (sqrt (real_of_int N)) = r"
  proof (rule round_unique)
    have "(real_of_int r - 1/2)\<^sup>2 = real_of_int (r * r - r) + 1/4"
      by (simp add: power2_eq_square algebra_simps)
    also have "\<dots> \<le> real_of_int N"
    proof -
      have "r * r - r + 1 \<le> N" using R(2) by simp
      then have "real_of_int (r * r - r + 1) \<le> real_of_int N" by (simp only: of_int_le_iff)
      then show ?thesis by simp
    qed
    finally have "real_of_int r - 1/2 \<le> sqrt (real_of_int N)" by (rule real_le_rsqrt)
    then show "real_of_int r \<le> sqrt (real_of_int N) + 1/2" by simp
  next
    have "real_of_int N \<le> real_of_int (r * r + r)" using R(3) by (simp only: of_int_le_iff)
    also have "\<dots> < (real_of_int r + 1/2)\<^sup>2" by (simp add: power2_eq_square algebra_simps)
    finally have "sqrt (real_of_int N) < real_of_int r + 1/2"
      using R(1) by (intro real_less_lsqrt) simp_all
    then show "sqrt (real_of_int N) - 1/2 < real_of_int r" by simp
  qed
  moreover have "cround (dsqrt (of_int N)) = r"
    by (simp add: dsqrt_def r_def v_def w(1) [symmetric] x_def)
  ultimately show ?thesis by simp
qed

lemma magnitude_eq:
  assumes "\<bar>gx\<bar> \<le> 1020" "\<bar>gy\<bar> \<le> 1020"
  shows "magnitude gx gy = min 255 (round (sqrt (real_of_int (gx * gx + gy * gy))))"
proof -
  have N: "0 \<le> gx * gx + gy * gy" "gx * gx + gy * gy < 2 ^ 22"
    using sum_squares_bound [OF assms] .
  then have N53: "\<bar>gx * gx + gy * gy\<bar> < 2 ^ 53" by simp
  have "dadd (dpow2 gx) (dpow2 gy) = rn 53 (of_int (gx * gx + gy * gy))"
    by (simp add: dadd_def dpow2_exact [OF assms(1)] dpow2_exact [OF assms(2)])
  also have "\<dots> = of_int (gx * gx + gy * gy)" by (rule rn_of_int [OF N53])
  finally show ?thesis
    unfolding magnitude_def Let_def by (simp only: cround_dsqrt [OF N]) simp
qed

section \<open>Edge detection computes the Sobel magnitude\<close>


lemma edges_body_sample:
  "edges_body h w img y x ((a, b, c), (d, e, f), k) =
     ((a + sample rgbtRed h w img y x * Gx ! k,
       b + sample rgbtBlue h w img y x * Gx ! k,
       c + sample rgbtGreen h w img y x * Gx ! k),
      (d + sample rgbtRed h w img y x * Gy ! k,
       e + sample rgbtBlue h w img y x * Gy ! k,
       f + sample rgbtGreen h w img y x * Gy ! k),
      k + 1)"
  by (auto simp: edges_body_def sample_def)

text \<open>A window loop whose upper bound is below \<open>INT_MAX\<close> runs its three rounds.\<close>

lemma upto_window: "[a - 1..a + 1] = [a - 1, a, a + 1]" for a :: int
proof -
  have "[a - 1..a + 1] = (a - 1) # [a..a + 1]"
    using upto_rec1 [of "a - 1" "a + 1"] by simp
  also have "[a..a + 1] = a # [a + 1..a + 1]"
    using upto_rec1 [of a "a + 1"] by simp
  finally show ?thesis by simp
qed

lemma for_upto_window:
  assumes "a + 1 < INT_MAX"
  shows "for_upto (a - 1) (a + 1) body s =
         Option.bind (Option.bind (body (a - 1) s) (body a)) (body (a + 1))"
  using assms by (simp add: for_upto_def upto_window)

text \<open>A window loop that reaches \<open>INT_MAX\<close> overflows its counter.\<close>

lemma for_upto_overflow:
  assumes "INT_MAX \<le> a + 1"
  shows "for_upto (a - 1) (a + 1) body s = None"
  using assms by (simp add: for_upto_def)

lemma edges_px_overflow:
  assumes "INT_MAX \<le> int i + 1 \<or> INT_MAX \<le> int j + 1"
  shows "edges_px h w img i j = None"
proof (cases "INT_MAX \<le> int i + 1")
  case True
  then show ?thesis by (simp add: edges_px_def edges_sums_def for_upto_overflow)
next
  case False
  then have i: "int i + 1 < INT_MAX" and j: "INT_MAX \<le> int j + 1" using assms by simp_all
  show ?thesis
    by (simp add: edges_px_def edges_sums_def for_upto_window [OF i] for_upto_overflow [OF j])
qed

text \<open>The loops of \<^verbatim>\<open>edges\<close> accumulate the Sobel sums of the three channels.\<close>

lemma edges_sums_eq:
  assumes "int i + 1 < INT_MAX" "int j + 1 < INT_MAX"
  shows "edges_sums h w img i j =
     Some ((sobel_x rgbtRed h w img i j, sobel_x rgbtBlue h w img i j, sobel_x rgbtGreen h w img i j),
           (sobel_y rgbtRed h w img i j, sobel_y rgbtBlue h w img i j, sobel_y rgbtGreen h w img i j),
           9)"
  by (simp add: edges_sums_def for_upto_window [OF assms(1)] for_upto_window [OF assms(2)]
      edges_body_sample Gx_def Gy_def sobel_x_def sobel_y_def Let_def)

lemma sample_bounds: "0 \<le> sample ch h w img y x" "sample ch h w img y x \<le> 255"
  using uint_lt2p [of "ch (img ! nat y ! nat x)"] by (simp_all add: sample_def)

lemma sobel_bounds: "\<bar>sobel_x ch h w img i j\<bar> \<le> 1020" "\<bar>sobel_y ch h w img i j\<bar> \<le> 1020"
proof -
  note b = sample_bounds [of ch h w img]
  show "\<bar>sobel_x ch h w img i j\<bar> \<le> 1020"
    unfolding sobel_x_def Let_def
    using b [of "int i - 1" "int j - 1"] b [of "int i - 1" "int j + 1"] b [of "int i" "int j - 1"]
      b [of "int i" "int j + 1"] b [of "int i + 1" "int j - 1"] b [of "int i + 1" "int j + 1"]
    by linarith
  show "\<bar>sobel_y ch h w img i j\<bar> \<le> 1020"
    unfolding sobel_y_def Let_def
    using b [of "int i - 1" "int j - 1"] b [of "int i - 1" "int j"] b [of "int i - 1" "int j + 1"]
      b [of "int i + 1" "int j - 1"] b [of "int i + 1" "int j"] b [of "int i + 1" "int j + 1"]
    by linarith
qed

lemma edges_px_eq:
  assumes "int i + 1 < INT_MAX" "int j + 1 < INT_MAX"
  shows "edges_px h w img i j = Some (edges_result h w img i j)"
  by (simp add: edges_px_def edges_sums_eq [OF assms] edges_result_def Let_def)

lemma magnitude_sobel:
  "magnitude (sobel_x ch h w img i j) (sobel_y ch h w img i j) =
     min 255 (round (sqrt (real_of_int ((sobel_x ch h w img i j)\<^sup>2 + (sobel_y ch h w img i j)\<^sup>2))))"
  using magnitude_eq [OF sobel_bounds, of ch h w img i j ch h w img i j]
  by (simp add: power2_eq_square)

lemma magnitude_range:
  "0 \<le> magnitude (sobel_x ch h w img i j) (sobel_y ch h w img i j)"
  "magnitude (sobel_x ch h w img i j) (sobel_y ch h w img i j) \<le> 255"
proof -
  have "0 \<le> sqrt (real_of_int ((sobel_x ch h w img i j)\<^sup>2 + (sobel_y ch h w img i j)\<^sup>2))"
    by simp
  then have "0 \<le> round (sqrt (real_of_int ((sobel_x ch h w img i j)\<^sup>2 + (sobel_y ch h w img i j)\<^sup>2)))"
    by (simp add: round_def)
  then show "0 \<le> magnitude (sobel_x ch h w img i j) (sobel_y ch h w img i j)"
    unfolding magnitude_sobel by simp
  show "magnitude (sobel_x ch h w img i j) (sobel_y ch h w img i j) \<le> 255"
    unfolding magnitude_sobel by simp
qed

lemma uint_magnitude:
  "uint (word_of_int (magnitude (sobel_x ch h w img i j) (sobel_y ch h w img i j)) :: BYTE) =
     min 255 (round (sqrt (real_of_int ((sobel_x ch h w img i j)\<^sup>2 + (sobel_y ch h w img i j)\<^sup>2))))"
proof -
  have "uint (word_of_int (magnitude (sobel_x ch h w img i j) (sobel_y ch h w img i j)) :: BYTE) =
        magnitude (sobel_x ch h w img i j) (sobel_y ch h w img i j)"
    using magnitude_range [of ch h w img i j] by (rule uint_word_of_int_byte)
  then show ?thesis by (simp only: magnitude_sobel)
qed

lemma uint_edges_result:
  "uint (rgbtRed (edges_result h w img i j)) =
     min 255 (round (sqrt (real_of_int ((sobel_x rgbtRed h w img i j)\<^sup>2 + (sobel_y rgbtRed h w img i j)\<^sup>2))))"
  "uint (rgbtGreen (edges_result h w img i j)) =
     min 255 (round (sqrt (real_of_int ((sobel_x rgbtGreen h w img i j)\<^sup>2 + (sobel_y rgbtGreen h w img i j)\<^sup>2))))"
  "uint (rgbtBlue (edges_result h w img i j)) =
     min 255 (round (sqrt (real_of_int ((sobel_x rgbtBlue h w img i j)\<^sup>2 + (sobel_y rgbtBlue h w img i j)\<^sup>2))))"
  unfolding edges_result_def RGBTRIPLE.simps by (rule uint_magnitude)+

text \<open>
  On an image whose height and width are below \<open>INT_MAX\<close> no window loop overflows, and
  \<^verbatim>\<open>edges\<close> replaces every pixel by \<open>edges_result\<close>, computed from the input image.
\<close>

lemma edges_eq:
  assumes "valid_grid h w img" "h < 2147483647" "w < 2147483647"
  shows "edges h w img = Some (map (\<lambda>i. map (\<lambda>j. edges_result h w img i j) [0..<w]) [0..<h])"
proof -
  define out where "out = map (\<lambda>i. map (\<lambda>j. edges_result h w img i j) [0..<w]) [0..<h]"
  have vout: "valid_grid h w out" unfolding out_def by (rule valid_grid_tabulate)
  have copy: "for2 h w (\<lambda>i j copy. put copy i j (img ! i ! j)) (replicate h (replicate w zero_px)) = img"
    by (rule for2_copy [OF valid_grid_replicate assms(1)])
  have px: "edges_px h w img i j = Some (edges_result h w img i j)" if "i < h" "j < w" for i j
    using that assms(2,3) by (intro edges_px_eq) (simp_all add: INT_MAX_def)
  have "for2_opt h w (\<lambda>i j copy. map_option (put copy i j) (edges_px h w img i j)) img =
        Some (for2 h w (\<lambda>i j copy. put copy i j (edges_result h w img i j)) img)"
    by (rule for2_opt_Some) (simp add: px)
  also have "\<dots> = Some out" unfolding out_def by (simp only: for2_fill [OF assms(1)])
  finally have loop: "for2_opt h w (\<lambda>i j copy. map_option (put copy i j) (edges_px h w img i j)) img = Some out" .
  have wb: "for2 h w (\<lambda>i j img. put img i j (out ! i ! j)) img = out"
    by (rule for2_copy [OF assms(1) vout])
  show ?thesis
    unfolding edges_def Let_def copy loop using wb by (simp add: out_def)
qed

lemma edges_nth:
  assumes "valid_grid h w img" "h < 2147483647" "w < 2147483647" "i < h" "j < w"
  shows "\<exists>out. edges h w img = Some out \<and> valid_grid h w out \<and> out ! i ! j = edges_result h w img i j"
  using assms by (simp add: edges_eq valid_grid_tabulate)

text \<open>
  C2. On a valid grid whose height and width are below \<open>INT_MAX = 2147483647\<close> (at
  \<open>INT_MAX\<close> the counter of a window loop overflows), EdgeDetect returns a grid and
  writes, for every pixel and for each channel on its own, the value
  \<open>round (sqrt (Gx\<^sup>2 + Gy\<^sup>2))\<close> capped at 255, where \<open>Gx\<close> and \<open>Gy\<close> are the Sobel sums of
  that channel over the 3x3 neighbourhood of the input image and a neighbour outside
  the image contributes the value 0 (\<open>sample\<close>).
\<close>

theorem edges_sobel:
  assumes "valid_grid height width img" "height < 2147483647" "width < 2147483647"
    "i < height" "j < width"
  shows "\<exists>out. edges height width img = Some out \<and>
         uint (rgbtRed (out ! i ! j)) =
           min 255 (round (sqrt (real_of_int ((sobel_x rgbtRed height width img i j)\<^sup>2 +
                                              (sobel_y rgbtRed height width img i j)\<^sup>2)))) \<and>
         uint (rgbtGreen (out ! i ! j)) =
           min 255 (round (sqrt (real_of_int ((sobel_x rgbtGreen height width img i j)\<^sup>2 +
                                              (sobel_y rgbtGreen height width img i j)\<^sup>2)))) \<and>
         uint (rgbtBlue (out ! i ! j)) =
           min 255 (round (sqrt (real_of_int ((sobel_x rgbtBlue height width img i j)\<^sup>2 +
                                              (sobel_y rgbtBlue height width img i j)\<^sup>2))))"
proof -
  from edges_nth [OF assms] obtain out where
    out: "edges height width img = Some out" "out ! i ! j = edges_result height width img i j"
    by blast
  show ?thesis
    unfolding out(1) using out(2) by (simp only: option.inject simp_thms ex_simps uint_edges_result)
qed

theorem edges_sobel_witness:
  "valid_grid 1 2 [[rgb 0 0 0, rgb 1 0 0]] \<and> (1::nat) < 2147483647 \<and> (2::nat) < 2147483647 \<and>
   (0::nat) < 1 \<and> (0::nat) < 2 \<and>
   sobel_x rgbtRed 1 2 [[rgb 0 0 0, rgb 1 0 0]] 0 0 = 2 \<and>
   sobel_y rgbtRed 1 2 [[rgb 0 0 0, rgb 1 0 0]] 0 0 = 0 \<and>
   (\<exists>out. edges 1 2 [[rgb 0 0 0, rgb 1 0 0]] = Some out \<and>
      uint (rgbtRed (out ! 0 ! 0)) = 2 \<and>
      uint (rgbtGreen (out ! 0 ! 0)) = 0 \<and>
      uint (rgbtBlue (out ! 0 ! 0)) = 0)"
proof -
  have v: "valid_grid 1 2 [[rgb 0 0 0, rgb 1 0 0]]" by (simp add: valid_grid_def)
  have s: "sobel_x rgbtRed 1 2 [[rgb 0 0 0, rgb 1 0 0]] 0 0 = 2"
    "sobel_y rgbtRed 1 2 [[rgb 0 0 0, rgb 1 0 0]] 0 0 = 0"
    "sobel_x rgbtGreen 1 2 [[rgb 0 0 0, rgb 1 0 0]] 0 0 = 0"
    "sobel_y rgbtGreen 1 2 [[rgb 0 0 0, rgb 1 0 0]] 0 0 = 0"
    "sobel_x rgbtBlue 1 2 [[rgb 0 0 0, rgb 1 0 0]] 0 0 = 0"
    "sobel_y rgbtBlue 1 2 [[rgb 0 0 0, rgb 1 0 0]] 0 0 = 0"
    by (simp_all add: sobel_x_def sobel_y_def sample_def rgb_def)
  have "\<exists>out. edges 1 2 [[rgb 0 0 0, rgb 1 0 0]] = Some out \<and>
      uint (rgbtRed (out ! 0 ! 0)) = 2 \<and>
      uint (rgbtGreen (out ! 0 ! 0)) = 0 \<and>
      uint (rgbtBlue (out ! 0 ! 0)) = 0"
    using edges_sobel [OF v, of 0 0, unfolded s] by simp
  then show ?thesis
    using v s(1,2) by simp
qed

section \<open>Edge detection on uniform images\<close>










section \<open>Sepia is the rounded sepia matrix\<close>


lemma dlit_err:
  assumes "0 \<le> q" "q \<le> 1"
  shows "0 \<le> dlit q" "\<bar>dlit q - q\<bar> \<le> 1 / 2 ^ 43"
proof -
  show "0 \<le> dlit q" unfolding dlit_def by (rule rn_nonneg [OF assms(1)])
  have "\<bar>q\<bar> \<le> 1024" using assms by simp
  then show "\<bar>dlit q - q\<bar> \<le> 1 / 2 ^ 43" unfolding dlit_def by (rule rn53_small_err)
qed

lemma dmul_err:
  assumes "0 \<le> q" "q \<le> 1" "0 \<le> R" "R \<le> 255"
  shows "0 \<le> dmul (dlit q) R" "\<bar>dmul (dlit q) R - q * R\<bar> \<le> 256 / 2 ^ 43"
proof -
  define la where "la = dlit q"
  have la: "0 \<le> la" "\<bar>la - q\<bar> \<le> 1 / 2 ^ 43" unfolding la_def by (rule dlit_err [OF assms(1,2)])+
  have eps: "(1 / 2 ^ 43 :: rat) \<le> 1" by simp
  have la2: "la \<le> 2" using la(2) assms(2) eps by linarith
  have p0: "0 \<le> la * R" using la(1) assms(3) by simp
  show "0 \<le> dmul (dlit q) R" unfolding dmul_def la_def [symmetric] by (rule rn_nonneg [OF p0])
  have "la * R \<le> 2 * 255" using la2 assms la(1) by (intro mult_mono) simp_all
  then have "\<bar>la * R\<bar> \<le> 1024" using p0 by simp
  then have e1: "\<bar>rn 53 (la * R) - la * R\<bar> \<le> 1 / 2 ^ 43" by (rule rn53_small_err)
  have "\<bar>la * R - q * R\<bar> = \<bar>la - q\<bar> * R"
    using assms(3) by (simp add: left_diff_distrib [symmetric] abs_mult)
  also have "\<dots> \<le> (1 / 2 ^ 43) * 255" using la(2) assms(3,4) by (intro mult_mono) simp_all
  finally have e2: "\<bar>la * R - q * R\<bar> \<le> (1 / 2 ^ 43) * 255" .
  show "\<bar>dmul (dlit q) R - q * R\<bar> \<le> 256 / 2 ^ 43"
    unfolding dmul_def la_def [symmetric] using e1 e2 by linarith
qed

lemma sepia_sum_err:
  assumes p1: "0 \<le> p1" "\<bar>p1 - x1\<bar> \<le> 256 / 2 ^ 43" "x1 \<le> 255"
    and p2: "0 \<le> p2" "\<bar>p2 - x2\<bar> \<le> 256 / 2 ^ 43" "x2 \<le> 255"
    and p3: "0 \<le> p3" "\<bar>p3 - x3\<bar> \<le> 256 / 2 ^ 43" "x3 \<le> 255"
  shows "0 \<le> dadd (dadd p1 p2) p3" "\<bar>dadd (dadd p1 p2) p3 - (x1 + x2 + x3)\<bar> \<le> 770 / 2 ^ 43"
proof -
  have eps: "(256 / 2 ^ 43 :: rat) \<le> 1" "(1 / 2 ^ 43 :: rat) \<le> 1" by simp_all
  define s1 where "s1 = rn 53 (p1 + p2)"
  have a0: "0 \<le> p1 + p2" using p1(1) p2(1) by simp
  have "\<bar>p1 + p2\<bar> \<le> 1024" using p1 p2 eps by linarith
  then have e1: "\<bar>s1 - (p1 + p2)\<bar> \<le> 1 / 2 ^ 43" unfolding s1_def by (rule rn53_small_err)
  have s0: "0 \<le> s1" unfolding s1_def by (rule rn_nonneg [OF a0])
  have b0: "0 \<le> s1 + p3" using s0 p3(1) by simp
  have "\<bar>s1 + p3\<bar> \<le> 1024" using e1 p1 p2 p3 eps s0 by linarith
  then have e2: "\<bar>rn 53 (s1 + p3) - (s1 + p3)\<bar> \<le> 1 / 2 ^ 43" by (rule rn53_small_err)
  show "0 \<le> dadd (dadd p1 p2) p3"
    unfolding dadd_def s1_def [symmetric] by (rule rn_nonneg [OF b0])
  show "\<bar>dadd (dadd p1 p2) p3 - (x1 + x2 + x3)\<bar> \<le> 770 / 2 ^ 43"
    unfolding dadd_def s1_def [symmetric] using e1 e2 p1(2) p2(2) p3(2) by linarith
qed

text \<open>
  One row of the sepia matrix in \<^verbatim>\<open>double\<close> arithmetic: \<^verbatim>\<open>std::round\<close> of the computed
  sum is a nearest integer of the exact value \<open>(a R + b G + c B) / 1000\<close>.
\<close>

lemma sepia_row:
  fixes R G B a b c :: int
  assumes ch: "0 \<le> R" "R \<le> 255" "0 \<le> G" "G \<le> 255" "0 \<le> B" "B \<le> 255"
    and co: "0 \<le> a" "a \<le> 1000" "0 \<le> b" "b \<le> 1000" "0 \<le> c" "c \<le> 1000"
  defines "d \<equiv> dadd (dadd (dmul (dlit (of_int a / 1000)) (of_int R)) (dmul (dlit (of_int b / 1000)) (of_int G)))
                   (dmul (dlit (of_int c / 1000)) (of_int B))"
  shows "0 \<le> cround d"
    and "nearest_int (of_int a / 1000 * of_int R + of_int b / 1000 * of_int G + of_int c / 1000 * of_int B)
           (cround d)"
proof -
  have q: "(0::rat) \<le> of_int a / 1000" "(of_int a :: rat) / 1000 \<le> 1"
    "(0::rat) \<le> of_int b / 1000" "(of_int b :: rat) / 1000 \<le> 1"
    "(0::rat) \<le> of_int c / 1000" "(of_int c :: rat) / 1000 \<le> 1"
    using co by simp_all
  have v: "(0::rat) \<le> of_int R" "(of_int R :: rat) \<le> 255" "(0::rat) \<le> of_int G"
    "(of_int G :: rat) \<le> 255" "(0::rat) \<le> of_int B" "(of_int B :: rat) \<le> 255"
    using ch by simp_all
  have x: "(of_int a :: rat) / 1000 * of_int R \<le> 255" "(of_int b :: rat) / 1000 * of_int G \<le> 255"
    "(of_int c :: rat) / 1000 * of_int B \<le> 255"
    using mult_mono [OF q(2) v(2) _ v(1)] mult_mono [OF q(4) v(4) _ v(3)]
      mult_mono [OF q(6) v(6) _ v(5)] by simp_all
  note pa = dmul_err [OF q(1,2) v(1,2)]
  note pb = dmul_err [OF q(3,4) v(3,4)]
  note pc = dmul_err [OF q(5,6) v(5,6)]
  note s = sepia_sum_err [OF pa x(1) pb x(2) pc x(3)]
  have d0: "0 \<le> d" unfolding d_def by (rule s(1))
  show "0 \<le> cround d" by (rule cround_nonneg_int [OF d0])
  have eq: "of_int a / 1000 * of_int R + of_int b / 1000 * of_int G + of_int c / 1000 * of_int B =
            (of_int (a * R + b * G + c * B) :: rat) / of_int 1000"
    by (simp add: field_simps)
  have err: "\<bar>d - of_int (a * R + b * G + c * B) / of_int 1000\<bar> \<le> 770 / 2 ^ 43"
    unfolding d_def eq [symmetric] by (rule s(2))
  have "\<bar>of_int (cround d) - (of_int (a * R + b * G + c * B) / of_int 1000 :: rat)\<bar> \<le> 1/2"
    by (rule round_nearest [OF d0 err]) simp_all
  then show "nearest_int (of_int a / 1000 * of_int R + of_int b / 1000 * of_int G + of_int c / 1000 * of_int B)
           (cround d)"
    unfolding nearest_int_def eq .
qed


lemma uint_byte_range:
  fixes x :: BYTE
  shows "0 \<le> uint x" "uint x \<le> 255"
  using uint_lt2p [of x] by simp_all

lemma uint_clamped: "uint (word_of_int (max (min r 255) 0) :: BYTE) = max 0 (min 255 r)"
proof -
  have "uint (word_of_int (max (min r 255) 0) :: BYTE) = max (min r 255) 0"
    by (rule uint_word_of_int_byte) simp_all
  then show ?thesis by (simp add: max.commute min.commute)
qed

text \<open>Every output channel of a sepia pixel is a clamped nearest integer of its matrix row.\<close>

lemma sepia_px_channels:
  "case sepia_matrix p of (vr, vg, vb) \<Rightarrow>
     \<exists>rr rg rb. nearest_int vr rr \<and> nearest_int vg rg \<and> nearest_int vb rb \<and>
       uint (rgbtRed (sepia_px p)) = max 0 (min 255 rr) \<and>
       uint (rgbtGreen (sepia_px p)) = max 0 (min 255 rg) \<and>
       uint (rgbtBlue (sepia_px p)) = max 0 (min 255 rb)"
proof -
  define R where "R = uint (rgbtRed p)"
  define G where "G = uint (rgbtGreen p)"
  define B where "B = uint (rgbtBlue p)"
  have ch: "0 \<le> R" "R \<le> 255" "0 \<le> G" "G \<le> 255" "0 \<le> B" "B \<le> 255"
    unfolding R_def G_def B_def by (rule uint_byte_range)+
  define rr where "rr = cround (dadd (dadd (dmul (dlit (393/1000)) (of_int R)) (dmul (dlit (769/1000)) (of_int G)))
                                 (dmul (dlit (189/1000)) (of_int B)))"
  define rg where "rg = cround (dadd (dadd (dmul (dlit (349/1000)) (of_int R)) (dmul (dlit (686/1000)) (of_int G)))
                                 (dmul (dlit (168/1000)) (of_int B)))"
  define rb where "rb = cround (dadd (dadd (dmul (dlit (272/1000)) (of_int R)) (dmul (dlit (534/1000)) (of_int G)))
                                 (dmul (dlit (131/1000)) (of_int B)))"
  have nr: "nearest_int (393/1000 * of_int R + 769/1000 * of_int G + 189/1000 * of_int B) rr"
    using sepia_row(2) [OF ch, of 393 769 189] by (simp add: rr_def)
  have ng: "nearest_int (349/1000 * of_int R + 686/1000 * of_int G + 168/1000 * of_int B) rg"
    using sepia_row(2) [OF ch, of 349 686 168] by (simp add: rg_def)
  have nb: "nearest_int (272/1000 * of_int R + 534/1000 * of_int G + 131/1000 * of_int B) rb"
    using sepia_row(2) [OF ch, of 272 534 131] by (simp add: rb_def)
  have i2d: "int_to_double (uint x) = of_int (uint x)" for x :: BYTE
  proof -
    have "\<bar>uint x\<bar> < 2 ^ 53" using uint_byte_range [of x] by simp
    then show ?thesis unfolding int_to_double_def by (rule rn_of_int)
  qed
  have px: "sepia_px p = p\<lparr>rgbtRed := word_of_int (max (min rr 255) 0),
      rgbtGreen := word_of_int (max (min rg 255) 0), rgbtBlue := word_of_int (max (min rb 255) 0)\<rparr>"
    unfolding sepia_px_def Let_def i2d rr_def rg_def rb_def R_def G_def B_def ..
  have sel: "rgbtRed (sepia_px p) = word_of_int (max (min rr 255) 0)"
    "rgbtGreen (sepia_px p) = word_of_int (max (min rg 255) 0)"
    "rgbtBlue (sepia_px p) = word_of_int (max (min rb 255) 0)"
    unfolding px by simp_all
  have u: "uint (rgbtRed (sepia_px p)) = max 0 (min 255 rr)"
    "uint (rgbtGreen (sepia_px p)) = max 0 (min 255 rg)"
    "uint (rgbtBlue (sepia_px p)) = max 0 (min 255 rb)"
    unfolding sel by (rule uint_clamped)+
  have m: "sepia_matrix p = (393/1000 * of_int R + 769/1000 * of_int G + 189/1000 * of_int B,
      349/1000 * of_int R + 686/1000 * of_int G + 168/1000 * of_int B,
      272/1000 * of_int R + 534/1000 * of_int G + 131/1000 * of_int B)"
    unfolding sepia_matrix_def Let_def R_def G_def B_def ..
  show ?thesis
    unfolding m prod.case using nr ng nb u by blast
qed

lemma sepia_map: "valid_grid h w c \<Longrightarrow> sepia h w c = map (map sepia_px) c"
  unfolding sepia_def by (rule for2_map)

lemma sepia_1x1: "sepia 1 1 [[p]] = [[sepia_px p]]"
  using sepia_map [of 1 1 "[[p]]"] by (simp add: valid_grid_def)

lemma sepia_px_black: "sepia_px (rgb 0 0 0) = rgb 0 0 0"
  by code_simp

lemma sepia_px_white: "sepia_px (rgb 255 255 255) = rgb 255 255 239"
  by code_simp

text \<open>
  At an exact tie the \<^verbatim>\<open>double\<close> sum can fall just below the half: for \<open>(6, 57, 81)\<close> the
  red row is exactly \<open>61.5\<close>, the computed sum is smaller, and the result is 61.
\<close>

lemma sepia_px_tie: "sepia_matrix (rgb 6 57 81) = (123/2, 13701/250, 42681/1000) \<and>
    rgbtRed (sepia_px (rgb 6 57 81)) = 61"
  by code_simp

text \<open>
  C5. Sepia maps every pixel to the triple obtained from the sepia matrix on the
  original channel values: each output channel is an integer nearest to its matrix row,
  clamped to \<open>[0, 255]\<close>. Black stays black and white becomes \<open>(255, 255, 239)\<close>.
\<close>

theorem sepia_matrix_rounded:
  assumes "valid_grid height width img" "i < height" "j < width"
  shows "(case sepia_matrix (img ! i ! j) of (vr, vg, vb) \<Rightarrow>
            \<exists>rr rg rb. nearest_int vr rr \<and> nearest_int vg rg \<and> nearest_int vb rb \<and>
              uint (rgbtRed (sepia height width img ! i ! j)) = max 0 (min 255 rr) \<and>
              uint (rgbtGreen (sepia height width img ! i ! j)) = max 0 (min 255 rg) \<and>
              uint (rgbtBlue (sepia height width img ! i ! j)) = max 0 (min 255 rb)) \<and>
         sepia 1 1 [[rgb 0 0 0]] = [[rgb 0 0 0]] \<and>
         sepia 1 1 [[rgb 255 255 255]] = [[rgb 255 255 239]]"
proof -
  have "length img = height" "length (img ! i) = width"
    using assms valid_grid_length valid_grid_nth by blast+
  then have "sepia height width img ! i ! j = sepia_px (img ! i ! j)"
    using assms by (simp add: sepia_map)
  then have "case sepia_matrix (img ! i ! j) of (vr, vg, vb) \<Rightarrow>
            \<exists>rr rg rb. nearest_int vr rr \<and> nearest_int vg rg \<and> nearest_int vb rb \<and>
              uint (rgbtRed (sepia height width img ! i ! j)) = max 0 (min 255 rr) \<and>
              uint (rgbtGreen (sepia height width img ! i ! j)) = max 0 (min 255 rg) \<and>
              uint (rgbtBlue (sepia height width img ! i ! j)) = max 0 (min 255 rb)"
    using sepia_px_channels [of "img ! i ! j"] by (simp only:)
  moreover have "sepia 1 1 [[rgb 0 0 0]] = [[rgb 0 0 0]]"
    by (simp only: sepia_1x1 sepia_px_black)
  moreover have "sepia 1 1 [[rgb 255 255 255]] = [[rgb 255 255 239]]"
    by (simp only: sepia_1x1 sepia_px_white)
  ultimately show ?thesis by blast
qed

theorem sepia_matrix_rounded_witness:
  "valid_grid 1 1 [[rgb 255 255 255]] \<and> (0::nat) < 1 \<and>
   sepia_matrix (rgb 255 255 255) = (68901/200, 61353/200, 47787/200) \<and>
   (\<exists>rr rg rb. nearest_int (68901/200) rr \<and> nearest_int (61353/200) rg \<and> nearest_int (47787/200) rb \<and>
      uint (rgbtRed (sepia 1 1 [[rgb 255 255 255]] ! 0 ! 0)) = max 0 (min 255 rr) \<and>
      uint (rgbtGreen (sepia 1 1 [[rgb 255 255 255]] ! 0 ! 0)) = max 0 (min 255 rg) \<and>
      uint (rgbtBlue (sepia 1 1 [[rgb 255 255 255]] ! 0 ! 0)) = max 0 (min 255 rb)) \<and>
   sepia 1 1 [[rgb 0 0 0]] = [[rgb 0 0 0]] \<and>
   sepia 1 1 [[rgb 255 255 255]] = [[rgb 255 255 239]]"
proof -
  have v: "valid_grid 1 1 [[rgb 255 255 255]]" by (simp add: valid_grid_def)
  have m: "sepia_matrix (rgb 255 255 255) = (68901/200, 61353/200, 47787/200)"
    by (simp add: sepia_matrix_def rgb_def)
  have lt: "(0::nat) < 1" by simp
  note t = sepia_matrix_rounded [OF v lt lt]
  have w: "(\<exists>rr rg rb. nearest_int (68901/200) rr \<and> nearest_int (61353/200) rg \<and> nearest_int (47787/200) rb \<and>
      uint (rgbtRed (sepia 1 1 [[rgb 255 255 255]] ! 0 ! 0)) = max 0 (min 255 rr) \<and>
      uint (rgbtGreen (sepia 1 1 [[rgb 255 255 255]] ! 0 ! 0)) = max 0 (min 255 rg) \<and>
      uint (rgbtBlue (sepia 1 1 [[rgb 255 255 255]] ! 0 ! 0)) = max 0 (min 255 rb)) \<and>
   sepia 1 1 [[rgb 0 0 0]] = [[rgb 0 0 0]] \<and>
   sepia 1 1 [[rgb 255 255 255]] = [[rgb 255 255 239]]"
    using t unfolding nth_Cons_0 m prod.case .
  from v lt m w show ?thesis by blast
qed

section \<open>The transforms preserve the dimensions\<close>


text \<open>
  C9. Each of the five transforms maps a structurally valid grid to a grid of the same
  height and width in which every row has length \<open>width\<close>; blur, which could be
  undefined, always returns a result, and so does edge detection when the height and
  the width are below \<open>INT_MAX = 2147483647\<close>, where its window loops do not overflow.
\<close>

theorem transforms_preserve_dimensions:
  assumes "valid_grid height width img"
  shows "valid_grid height width (grayscale height width img) \<and>
         valid_grid height width (sepia height width img) \<and>
         valid_grid height width (reflect height width img) \<and>
         (\<exists>out. blur height width img = Some out \<and> valid_grid height width out) \<and>
         (height < 2147483647 \<and> width < 2147483647 \<longrightarrow>
            (\<exists>out. edges height width img = Some out \<and> valid_grid height width out))"
  using assms
  by (simp add: grayscale_map sepia_map reflect_rev blur_eq edges_eq valid_grid_map
      valid_grid_map_rev valid_grid_tabulate)

theorem transforms_preserve_dimensions_witness:
  "valid_grid 2 2 [[rgb 1 0 0, rgb 2 0 5], [rgb 10 20 30, rgb 255 255 255]] \<and>
   (2::nat) < 2147483647 \<and>
   valid_grid 2 2 (grayscale 2 2 [[rgb 1 0 0, rgb 2 0 5], [rgb 10 20 30, rgb 255 255 255]]) \<and>
   valid_grid 2 2 (sepia 2 2 [[rgb 1 0 0, rgb 2 0 5], [rgb 10 20 30, rgb 255 255 255]]) \<and>
   valid_grid 2 2 (reflect 2 2 [[rgb 1 0 0, rgb 2 0 5], [rgb 10 20 30, rgb 255 255 255]]) \<and>
   (\<exists>out. blur 2 2 [[rgb 1 0 0, rgb 2 0 5], [rgb 10 20 30, rgb 255 255 255]] = Some out \<and>
      valid_grid 2 2 out) \<and>
   (\<exists>out. edges 2 2 [[rgb 1 0 0, rgb 2 0 5], [rgb 10 20 30, rgb 255 255 255]] = Some out \<and>
      valid_grid 2 2 out)"
proof -
  have v: "valid_grid 2 2 [[rgb 1 0 0, rgb 2 0 5], [rgb 10 20 30, rgb 255 255 255]]"
    by (simp add: valid_grid_def)
  have b: "(2::nat) < 2147483647" by simp
  from v b transforms_preserve_dimensions [OF v] show ?thesis by blast
qed

end
